theory Spec2Isabelle
  imports Complex_Main "HOL-Library.Extended_Nat" "HOL-Library.AList" "HOL-Library.Log_Nat"
    "HOL-Library.Char_ord" "HOL-Library.List_Lexorder"
begin

section \<open>Access-log traffic analysis: a shallow embedding\<close>

text \<open>
  The development embeds three pieces of the repository:
  \<^item> \<open>downsample\<close>, the windowed-mean compression of a time series used by the
    visualisations (the generic version of the traffic-by-country chart and the
    three-column version of \<open>bot-vs-browser.ts\<close>);
  \<^item> the \<open>line\<close> listener of \<open>processLogFile\<close> and the statistics of \<open>main\<close> in the
    traffic script;
  \<^item> the per-bot lookup loop of \<open>main\<close> in the bot enrichment script.

  JavaScript exceptions are values of \<open>js_error\<close>; a function that can throw returns
  \<open>js_error + 'a\<close>.
\<close>

datatype js_error = TypeError | NoData


subsection \<open>Numbers\<close>

text \<open>
  A JavaScript number is an IEEE 754 double: a rational, one of the two infinities, or
  \<open>NaN\<close>. The sign of zero is not modelled; it shows only in a division by a computed
  zero, and the code divides by array lengths and counts only.

  \<open>fl64 x\<close> is the double nearest to the rational \<open>x\<close>, ties to the even significand.
  \<open>expo x\<close> is the binary exponent of \<open>x\<close>, that is \<open>2 powi expo x \<le> \<bar>x\<bar> < 2 powi (expo x + 1)\<close>
  (lemma \<open>expo_bounds\<close>);
  a double has 53 significant bits, its exponent is at least \<open>- 1022\<close> (below that the
  spacing stays \<open>2 powi (- 1074)\<close>), and a rounded result whose exponent exceeds 1023 is
  an infinity.
\<close>

datatype jsnum = Num rat | PosInfinity | NegInfinity | NaN

definition expo :: "rat \<Rightarrow> int" where
  "expo x =
     (let (p, q) = quotient_of \<bar>x\<bar>; d = bitlen p - bitlen q
      in if 2 powi d \<le> \<bar>x\<bar> then d else d - 1)"

text \<open>The nearest integer, ties to the even one.\<close>

definition rne :: "rat \<Rightarrow> int" where
  "rne q =
     (let f = \<lfloor>q\<rfloor>; r = q - of_int f
      in if r < 1 / 2 then f else if 1 / 2 < r then f + 1 else if even f then f else f + 1)"

definition signed_infinity :: "rat \<Rightarrow> jsnum" where
  "signed_infinity s = (if 0 < s then PosInfinity else if s < 0 then NegInfinity else NaN)"

definition fl64 :: "rat \<Rightarrow> jsnum" where
  "fl64 x =
     (if x = 0 then Num 0
      else let u = 2 powi (max (expo x) (- 1022) - 52);
               y = of_int (rne (x / u)) * u
           in if expo y < 1024 then Num y else signed_infinity y)"

text \<open>\<open>a + b\<close>.\<close>

fun js_add :: "jsnum \<Rightarrow> jsnum \<Rightarrow> jsnum" where
  "js_add (Num x) (Num y) = fl64 (x + y)"
| "js_add NaN b = NaN"
| "js_add a NaN = NaN"
| "js_add PosInfinity NegInfinity = NaN"
| "js_add NegInfinity PosInfinity = NaN"
| "js_add PosInfinity b = PosInfinity"
| "js_add NegInfinity b = NegInfinity"
| "js_add (Num x) b = b"

fun sign_of :: "jsnum \<Rightarrow> rat" where
  "sign_of (Num x) = sgn x"
| "sign_of PosInfinity = 1"
| "sign_of NegInfinity = - 1"
| "sign_of NaN = 0"

text \<open>\<open>a * b\<close>.\<close>

fun js_mul :: "jsnum \<Rightarrow> jsnum \<Rightarrow> jsnum" where
  "js_mul (Num x) (Num y) = fl64 (x * y)"
| "js_mul NaN b = NaN"
| "js_mul a NaN = NaN"
| "js_mul a b = signed_infinity (sign_of a * sign_of b)"

text \<open>\<open>a / n\<close> for an array length or a count \<open>n\<close>: \<open>0 / 0\<close> is \<open>NaN\<close>, \<open>x / 0\<close> an infinity.\<close>

fun js_div_count :: "jsnum \<Rightarrow> nat \<Rightarrow> jsnum" where
  "js_div_count (Num x) n = (if n = 0 then signed_infinity x else fl64 (x / of_nat n))"
| "js_div_count a n = a"

text \<open>\<open>Math.round\<close>: the nearest integer, ties upwards; exact on doubles.\<close>

definition math_round :: "rat \<Rightarrow> int" where
  "math_round q = \<lfloor>q + 1 / 2\<rfloor>"

fun js_round :: "jsnum \<Rightarrow> jsnum" where
  "js_round (Num x) = Num (of_int (math_round x))"
| "js_round a = a"

text \<open>\<open>Math.round ((count / total) * 10000) / 100\<close>, as both scripts write it.\<close>

definition percentage :: "nat \<Rightarrow> nat \<Rightarrow> jsnum" where
  "percentage n tot =
     js_div_count (js_round (js_mul (js_div_count (Num (of_nat n)) tot) (Num 10000))) 100"

text \<open>The rounding formula of the specification, \<open>round (c / t * 10000) / 100\<close>, on exact
  numbers.\<close>

definition spec_round :: "rat \<Rightarrow> int" where
  "spec_round q = \<lfloor>q + 1 / 2\<rfloor>"

definition spec_percentage :: "nat \<Rightarrow> nat \<Rightarrow> rat" where
  "spec_percentage c t = of_int (spec_round (of_nat c / of_nat t * 10000)) / 100"


subsection \<open>The downsampler\<close>

text \<open>
  A series is an array of rows of numbers; a row may be of any length. The target is a
  count, an integer (the charts pass 500); nothing in the code keeps it positive.
  A loop index is an integer or \<open>Infinity\<close>, which is what adding the ratio
  \<open>Math.ceil (n / 0)\<close> gives.
\<close>

type_synonym series = "jsnum list list"

datatype js_index = Finite int | Infinite

fun index_add :: "js_index \<Rightarrow> js_index \<Rightarrow> js_index" where
  "index_add (Finite a) (Finite b) = Finite (a + b)"
| "index_add a b = Infinite"

text \<open>\<open>Math.min (e, n)\<close> for an array length \<open>n\<close>.\<close>

fun index_min :: "js_index \<Rightarrow> nat \<Rightarrow> int" where
  "index_min (Finite e) n = min e (int n)"
| "index_min Infinite n = int n"

text \<open>
  \<open>xs.slice (b, e)\<close>: a negative argument counts from the end of the array, and both
  ends are clamped to the array.
\<close>

definition js_slice :: "int \<Rightarrow> int \<Rightarrow> 'a list \<Rightarrow> 'a list" where
  "js_slice b e xs =
     (let n = int (length xs);
          k = (if b < 0 then max (n + b) 0 else min b n);
          final = (if e < 0 then max (n + e) 0 else min e n)
      in take (nat (final - k)) (drop (nat k) xs))"

text \<open>\<open>row[col]\<close>: reading past the end of a row gives \<open>undefined\<close>, which turns a sum
  into \<open>NaN\<close>.\<close>

definition cell :: "jsnum list \<Rightarrow> nat \<Rightarrow> jsnum" where
  "cell row col = (if col < length row then row ! col else NaN)"

text \<open>\<open>Math.round (chunk.reduce ((s, row) => s + row[col], 0) / chunk.length)\<close>.\<close>

definition col_avg :: "series \<Rightarrow> nat \<Rightarrow> jsnum" where
  "col_avg chunk col =
     js_round (js_div_count (foldl (\<lambda>s row. js_add s (cell row col)) (Num 0) chunk) (length chunk))"

text \<open>
  \<open>Math.ceil (n / t)\<close> for an array length \<open>n > 0\<close>: division by zero is \<open>Infinity\<close>.
  The ceiling is taken of the exact quotient. An array has fewer than \<open>2 ^ 32\<close>
  elements; for such a length and a positive target below it the quotient rounded to
  double precision has the same ceiling (lemma \<open>ceil_quotient_double\<close>).
\<close>

definition math_ceil_div :: "nat \<Rightarrow> int \<Rightarrow> js_index" where
  "math_ceil_div n t = (if t = 0 then Infinite else Finite \<lceil>(of_nat n :: rat) / of_int t\<rceil>)"

text \<open>
  The generic version. \<open>chunk[0].length\<close> throws a \<open>TypeError\<close> on an empty chunk,
  which is what ends the loop when the ratio is not positive.
\<close>

function downsample_loop :: "series \<Rightarrow> js_index \<Rightarrow> js_index \<Rightarrow> series \<Rightarrow> js_error + series" where
  "downsample_loop data ratio i result =
     (case i of
        Infinite \<Rightarrow> Inr result
      | Finite k \<Rightarrow>
          if k < int (length data) then
            (case js_slice k (index_min (index_add i ratio) (length data)) data of
               [] \<Rightarrow> Inl TypeError
             | row0 # rest \<Rightarrow>
                 downsample_loop data ratio (index_add i ratio)
                   (result @ [map (col_avg (row0 # rest)) [0..<length row0]]))
          else Inr result)"
  by pat_completeness auto
termination
proof (relation "measure (\<lambda>(data, ratio, i, result).
          case i of Infinite \<Rightarrow> 0
          | Finite k \<Rightarrow> (case ratio of Infinite \<Rightarrow> 1
              | Finite r \<Rightarrow> if 0 < r then 1 + nat (int (length data) - k)
                            else if 0 \<le> k then 1 else 0))")
  show "wf (measure (\<lambda>(data, ratio, i, result).
          case i of Infinite \<Rightarrow> 0
          | Finite k \<Rightarrow> (case ratio of Infinite \<Rightarrow> 1
              | Finite r \<Rightarrow> if 0 < r then 1 + nat (int (length data) - k)
                            else if 0 \<le> k then 1 else (0::nat))))"
    by simp
next
  fix data :: series and ratio i :: js_index and result :: series and k row0 rest
  assume i: "i = Finite k" and lt: "k < int (length data)"
    and ch: "js_slice k (index_min (index_add i ratio) (length data)) data = row0 # rest"
  show "((data, ratio, index_add i ratio, result @ [map (col_avg (row0 # rest)) [0..<length row0]]),
         (data, ratio, i, result))
        \<in> measure (\<lambda>(data, ratio, i, result).
          case i of Infinite \<Rightarrow> 0
          | Finite k \<Rightarrow> (case ratio of Infinite \<Rightarrow> 1
              | Finite r \<Rightarrow> if 0 < r then 1 + nat (int (length data) - k)
                            else if 0 \<le> k then 1 else 0))"
  proof (cases ratio)
    case Infinite
    with i show ?thesis by simp
  next
    case (Finite r)
    show ?thesis
    proof (cases "0 < r")
      case True
      with Finite i lt show ?thesis by simp
    next
      case False
      have "0 \<le> k \<and> k + r < 0"
      proof (rule ccontr)
        assume "\<not> (0 \<le> k \<and> k + r < 0)"
        with False lt have "js_slice k (min (k + r) (int (length data))) data = []"
          by (auto simp: js_slice_def Let_def min_def max_def)
        with ch i Finite show False by simp
      qed
      with Finite i False show ?thesis by simp
    qed
  qed
qed

definition downsample :: "series \<Rightarrow> int \<Rightarrow> js_error + series" where
  "downsample data targetPoints =
     (if int (length data) \<le> targetPoints then Inr data
      else downsample_loop data (math_ceil_div (length data) targetPoints) (Finite 0) [])"

text \<open>
  The version of \<open>bot-vs-browser.ts\<close> reads the columns 0, 1 and 2 of every row. It
  never inspects \<open>chunk[0]\<close>, so with a ratio that is not positive its loop does not
  end: the loop is a partial function, \<open>None\<close> meaning that it does not return.
\<close>

partial_function (option) downsample3_loop :: "series \<Rightarrow> js_index \<Rightarrow> js_index \<Rightarrow> series \<Rightarrow> series option" where
  "downsample3_loop data ratio i result =
     (case i of
        Infinite \<Rightarrow> Some result
      | Finite k \<Rightarrow>
          if k < int (length data) then
            (let chunk = js_slice k (index_min (index_add i ratio) (length data)) data
             in downsample3_loop data ratio (index_add i ratio)
                  (result @ [[col_avg chunk 0, col_avg chunk 1, col_avg chunk 2]]))
          else Some result)"

definition downsample3 :: "series \<Rightarrow> int \<Rightarrow> series option" where
  "downsample3 data targetPoints =
     (if int (length data) \<le> targetPoints then Some data
      else downsample3_loop data (math_ceil_div (length data) targetPoints) (Finite 0) [])"

text \<open>Rows of integers as a series.\<close>

definition int_rows :: "int list list \<Rightarrow> series" where
  "int_rows rows = map (map (\<lambda>x. Num (of_int x))) rows"

subsection \<open>The downsampler as the specification words it\<close>

text \<open>
  Consecutive, non-overlapping windows of \<open>w\<close> rows, the last one possibly shorter;
  per window one row whose column \<open>c\<close> is the rounded mean of column \<open>c\<close>; the window
  size is the ceiling of the number of rows over the target count.
\<close>

function windows :: "nat \<Rightarrow> 'a list \<Rightarrow> 'a list list" where
  "windows w xs = (if w = 0 \<or> xs = [] then [] else take w xs # windows w (drop w xs))"
  by pat_completeness auto
termination
  by (relation "measure (\<lambda>(w, xs). length xs)") auto

declare windows.simps [simp del]

definition spec_windows :: "enat \<Rightarrow> 'a list \<Rightarrow> 'a list list" where
  "spec_windows w xs = (case w of enat k \<Rightarrow> windows k xs | \<infinity> \<Rightarrow> (if xs = [] then [] else [xs]))"

definition spec_window_size :: "nat \<Rightarrow> nat \<Rightarrow> enat" where
  "spec_window_size n t = (if t = 0 then \<infinity> else enat (nat \<lceil>(of_nat n :: rat) / of_nat t\<rceil>))"

definition spec_mean :: "int list \<Rightarrow> rat" where
  "spec_mean xs = of_int (sum_list xs) / of_nat (length xs)"

definition spec_row :: "nat \<Rightarrow> int list list \<Rightarrow> int list" where
  "spec_row width window = map (\<lambda>c. spec_round (spec_mean (map (\<lambda>row. row ! c) window))) [0..<width]"

definition spec_downsample :: "nat \<Rightarrow> int list list \<Rightarrow> nat \<Rightarrow> int list list" where
  "spec_downsample width rows t =
     map (spec_row width) (spec_windows (spec_window_size (length rows) t) rows)"

declare downsample_loop.simps [simp del]


subsection \<open>Counters\<close>

text \<open>
  The scripts count in plain objects used as dictionaries. A dictionary is an
  association list in insertion order, with one entry per key. \<open>m[k] = (m[k] || 0) + 1\<close>
  reads a missing key as zero. Counts are natural numbers (the precision limit of
  doubles at \<open>2^53\<close> is not modelled), and keys are taken to be ordinary property names,
  not names an object inherits from its prototype.
\<close>

type_synonym counters = "(string \<times> nat) list"

definition count_of :: "string \<Rightarrow> counters \<Rightarrow> nat" where
  "count_of k m = (case map_of m k of None \<Rightarrow> 0 | Some n \<Rightarrow> n)"

definition incr :: "string \<Rightarrow> counters \<Rightarrow> counters" where
  "incr k m = AList.update k (count_of k m + 1) m"

subsection \<open>The geo lookup capability\<close>

text \<open>
  \<open>geoip.lookup (ip)\<close> returns a promise. It rejects, or resolves to \<open>null\<close>, or resolves to
  an object whose properties may be absent (\<open>None\<close> is \<open>undefined\<close>). The capability may
  answer differently on every call: it is a function of the number of calls made before
  and of the address.
\<close>

record geo_result =
  country :: "string option"
  region :: "string option"
  city :: "string option"
  timezone :: "string option"

datatype lookup_outcome = Rejects | Resolves "geo_result option"

type_synonym lookup = "nat \<Rightarrow> string \<Rightarrow> lookup_outcome"

subsection \<open>The traffic script: state\<close>

text \<open>
  A line of the log is represented by what \<open>LOG_PATTERN\<close> and \<open>parseDateTime\<close> extract from
  it: \<open>None\<close> when the pattern does not match or the date does not parse, otherwise the
  address, the minute key \<open>formatMinuteKey (truncateToMinute (dt))\<close>, the status and the
  size (\<open>None\<close> for \<open>-\<close>). The regular expressions and the calendar arithmetic of
  \<open>Date\<close> are not part of the model.
\<close>

record log_line =
  ip :: string
  minuteKey :: string
  status :: string
  size :: "nat option"

record minute_bucket =
  requests :: nat
  bytes :: nat
  countries :: counters
  status_codes :: counters

text \<open>
  The listener is an \<open>async\<close> function: at \<open>await geoip.lookup (ip)\<close> it returns to its
  caller and its remainder runs when the promise settles. A suspended listener is
  recorded with the local variables its remainder reads and the outcome its lookup
  will deliver.
\<close>

record awaiting =
  aw_ip :: string
  aw_minuteKey :: string
  aw_outcome :: lookup_outcome

text \<open>
  The state of a run: the four objects \<open>main\<close> shares with every call of
  \<open>processLogFile\<close>, the running totals of the two line counters, the addresses the
  capability has been called with (in call order), and the suspended listeners.
  A cached country may be \<open>undefined\<close>.
\<close>

record run_state =
  minuteData :: "(string \<times> minute_bucket) list"
  countryTotals :: counters
  statusTotals :: counters
  ipCache :: "(string \<times> string option) list"
  totalLines :: nat
  totalParsed :: nat
  lookups :: "string list"
  suspended :: "awaiting list"

definition init_state :: run_state where
  "init_state = \<lparr>minuteData = [], countryTotals = [], statusTotals = [], ipCache = [],
     totalLines = 0, totalParsed = 0, lookups = [], suspended = []\<rparr>"

definition empty_bucket :: minute_bucket where
  "empty_bucket = \<lparr>requests = 0, bytes = 0, countries = [], status_codes = []\<rparr>"

text \<open>A value used as a property name: \<open>undefined\<close> becomes the string \<open>undefined\<close>.\<close>

definition property_key :: "string option \<Rightarrow> string" where
  "property_key v = (case v of None \<Rightarrow> ''undefined'' | Some s \<Rightarrow> s)"

text \<open>\<open>ipCache[ip]\<close>: \<open>undefined\<close> both for a missing key and for a stored \<open>undefined\<close>.\<close>

definition cache_read :: "(string \<times> string option) list \<Rightarrow> string \<Rightarrow> string option" where
  "cache_read cache k = (case map_of cache k of None \<Rightarrow> None | Some v \<Rightarrow> v)"

text \<open>\<open>minuteData[k].field = ...\<close>: a \<open>TypeError\<close> when \<open>minuteData[k]\<close> is \<open>undefined\<close>.\<close>

definition with_bucket ::
  "string \<Rightarrow> (minute_bucket \<Rightarrow> minute_bucket) \<Rightarrow> run_state \<Rightarrow> js_error + run_state" where
  "with_bucket k f s =
     (case map_of (minuteData s) k of
        None \<Rightarrow> Inl TypeError
      | Some b \<Rightarrow> Inr (s\<lparr>minuteData := AList.update k (f b) (minuteData s)\<rparr>))"

subsection \<open>The traffic script: the line listener\<close>

text \<open>Count by country for this minute, and in total (the last two statements).\<close>

definition count_country :: "string \<Rightarrow> string option \<Rightarrow> run_state \<Rightarrow> js_error + run_state" where
  "count_country key c s =
     (case with_bucket key (\<lambda>b. b\<lparr>countries := incr (property_key c) (countries b)\<rparr>) s of
        Inl e \<Rightarrow> Inl e
      | Inr s' \<Rightarrow> Inr (s'\<lparr>countryTotals := incr (property_key c) (countryTotals s')\<rparr>))"

text \<open>Initialise the minute if needed.\<close>

definition init_minute :: "string \<Rightarrow> run_state \<Rightarrow> run_state" where
  "init_minute key s =
     (if map_of (minuteData s) key = None
      then s\<lparr>minuteData := AList.update key empty_bucket (minuteData s)\<rparr>
      else s)"

text \<open>Count the request, its bytes and its status code.\<close>

definition count_request :: "log_line \<Rightarrow> run_state \<Rightarrow> js_error + run_state" where
  "count_request l s =
     (case with_bucket (minuteKey l)
             (\<lambda>b. b\<lparr>requests := requests b + 1,
                    bytes := (case size l of None \<Rightarrow> bytes b | Some n \<Rightarrow> bytes b + n),
                    status_codes := incr (status l) (status_codes b)\<rparr>) s of
        Inl e \<Rightarrow> Inl e
      | Inr s' \<Rightarrow> Inr (s'\<lparr>statusTotals := incr (status l) (statusTotals s')\<rparr>))"

text \<open>
  A cache miss: the capability is called and the listener suspends at \<open>await\<close>.
\<close>

definition await_lookup :: "lookup \<Rightarrow> log_line \<Rightarrow> run_state \<Rightarrow> run_state" where
  "await_lookup geoip l s =
     s\<lparr>lookups := lookups s @ [ip l],
       suspended := suspended s @
         [\<lparr>aw_ip = ip l, aw_minuteKey = minuteKey l,
           aw_outcome = geoip (length (lookups s)) (ip l)\<rparr>]\<rparr>"

text \<open>The listener from its start to its end, or to its \<open>await\<close>.\<close>

definition line_handler :: "lookup \<Rightarrow> log_line option \<Rightarrow> run_state \<Rightarrow> js_error + run_state" where
  "line_handler geoip line s0 =
     (case line of
        None \<Rightarrow> Inr (s0\<lparr>totalLines := totalLines s0 + 1\<rparr>)
      | Some l \<Rightarrow>
          (case count_request l
                  (init_minute (minuteKey l)
                     (s0\<lparr>totalLines := totalLines s0 + 1, totalParsed := totalParsed s0 + 1\<rparr>)) of
             Inl e \<Rightarrow> Inl e
           | Inr s \<Rightarrow>
               (case cache_read (ipCache s) (ip l) of
                  None \<Rightarrow> Inr (await_lookup geoip l s)
                | Some c \<Rightarrow> count_country (minuteKey l) (Some c) s)))"

text \<open>
  The remainder of a suspended listener. First the \<open>try\<close>/\<open>catch\<close> around the lookup:
  \<open>country = geo ? geo.country : 'Unknown'\<close>, and \<open>'Unknown'\<close> when the lookup throws.
  Then the store into the cache and the two country counts.
\<close>

definition resolved_country :: "lookup_outcome \<Rightarrow> string option" where
  "resolved_country outcome =
     (case outcome of
        Rejects \<Rightarrow> Some ''Unknown''
      | Resolves None \<Rightarrow> Some ''Unknown''
      | Resolves (Some g) \<Rightarrow> country g)"

definition line_handler_resume :: "awaiting \<Rightarrow> run_state \<Rightarrow> js_error + run_state" where
  "line_handler_resume a s =
     (let c = resolved_country (aw_outcome a);
          s' = s\<lparr>ipCache := AList.update (aw_ip a) c (ipCache s)\<rparr>
      in count_country (aw_minuteKey a) c s')"

text \<open>
  What happens during a run is a sequence of events: the stream delivers a line, or
  the lookup of the \<open>j\<close>-th suspended listener settles. Which sequences occur is decided
  by the runtime (the order in which \<open>readline\<close> emits lines and promise reactions
  run), not by the script; the script registers the listener with \<open>rl.on\<close> and never
  pauses the stream. The model takes the sequence as an input. An exception that
  escapes a listener ends the run.
\<close>

datatype event = Line "log_line option" | Settle nat

definition step :: "lookup \<Rightarrow> event \<Rightarrow> run_state \<Rightarrow> js_error + run_state" where
  "step geoip e s =
     (case e of
        Line l \<Rightarrow> line_handler geoip l s
      | Settle j \<Rightarrow>
          if j < length (suspended s)
          then line_handler_resume (suspended s ! j)
                 (s\<lparr>suspended := take j (suspended s) @ drop (Suc j) (suspended s)\<rparr>)
          else Inr s)"

fun run :: "lookup \<Rightarrow> event list \<Rightarrow> run_state \<Rightarrow> js_error + run_state" where
  "run geoip [] s = Inr s"
| "run geoip (e # es) s = (case step geoip e s of Inl err \<Rightarrow> Inl err | Inr s' \<Rightarrow> run geoip es s')"

text \<open>
  The schedule in which every listener finishes before the next line is delivered.
\<close>

definition one_at_a_time :: "log_line option list \<Rightarrow> event list" where
  "one_at_a_time ls = concat (map (\<lambda>l. [Line l, Settle 0]) ls)"

text \<open>
  Strict per-line ordering means that no line is delivered while a listener is
  suspended. \<open>overlaps\<close> tells whether a sequence of events breaks it before the run
  ends.
\<close>

fun overlaps :: "lookup \<Rightarrow> event list \<Rightarrow> run_state \<Rightarrow> bool" where
  "overlaps geoip [] s = False"
| "overlaps geoip (Line l # es) s =
     (suspended s \<noteq> []
      \<or> (case step geoip (Line l) s of Inl err \<Rightarrow> False | Inr s' \<Rightarrow> overlaps geoip es s'))"
| "overlaps geoip (Settle j # es) s =
     (case step geoip (Settle j) s of Inl err \<Rightarrow> False | Inr s' \<Rightarrow> overlaps geoip es s')"

subsection \<open>The traffic script: the peak minute\<close>

text \<open>
  \<open>Object.keys (minuteData).sort ()\<close> orders the keys by code units, which for the
  characters of a minute key is the lexicographic order of strings.
\<close>

definition sortedMinutes :: "(string \<times> minute_bucket) list \<Rightarrow> string list" where
  "sortedMinutes md = sort (map fst md)"

fun peak_loop ::
  "(string \<times> minute_bucket) list \<Rightarrow> string list \<Rightarrow> string \<times> nat \<Rightarrow> js_error + string \<times> nat" where
  "peak_loop md [] acc = Inr acc"
| "peak_loop md (minute # rest) (peakMinute, peakRequests) =
     (case map_of md minute of
        None \<Rightarrow> Inl TypeError
      | Some b \<Rightarrow>
          if requests b > peakRequests then peak_loop md rest (minute, requests b)
          else peak_loop md rest (peakMinute, peakRequests))"

definition find_peak :: "(string \<times> minute_bucket) list \<Rightarrow> js_error + string \<times> nat" where
  "find_peak md =
     (case sortedMinutes md of
        [] \<Rightarrow> Inl NoData
      | first # rest \<Rightarrow> peak_loop md (first # rest) (first, 0))"

text \<open>The requests of a minute, zero for a minute that has no bucket.\<close>

definition req :: "(string \<times> minute_bucket) list \<Rightarrow> string \<Rightarrow> nat" where
  "req md m = (case map_of md m of None \<Rightarrow> 0 | Some b \<Rightarrow> requests b)"

text \<open>
  The balance every reachable state keeps: one bucket per key; in every bucket the
  country counts and the suspended listeners of that minute add up to the requests;
  and every suspended listener has its bucket.
\<close>

definition bucket_inv :: "run_state \<Rightarrow> bool" where
  "bucket_inv s \<longleftrightarrow>
     distinct (map fst (minuteData s))
   \<and> (\<forall>k b. map_of (minuteData s) k = Some b \<longrightarrow>
         sum_list (map snd (countries b)) + length (filter (\<lambda>a. aw_minuteKey a = k) (suspended s))
           = requests b)
   \<and> (\<forall>a\<in>set (suspended s). map_of (minuteData s) (aw_minuteKey a) \<noteq> None)"

text \<open>
  What the cache keeps between two lines when every listener finishes before the next
  line is delivered: nothing is suspended, no address has been looked up twice, and
  every address looked up has a country in the cache.
\<close>

definition cache_inv :: "run_state \<Rightarrow> bool" where
  "cache_inv s \<longleftrightarrow>
     suspended s = [] \<and> distinct (lookups s)
   \<and> (\<forall>i\<in>set (lookups s). cache_read (ipCache s) i \<noteq> None)"

text \<open>Inputs for the examples.\<close>

definition geo_in :: "string \<Rightarrow> geo_result" where
  "geo_in c = \<lparr>country = Some c, region = None, city = None, timezone = None\<rparr>"

definition log_entry :: "string \<Rightarrow> string \<Rightarrow> log_line option" where
  "log_entry i k = Some \<lparr>ip = i, minuteKey = k, status = ''200'', size = Some 512\<rparr>"

definition example_lookup :: lookup where
  "example_lookup n i =
     (if i = ''10.0.0.2'' then Resolves (Some (geo_in ''BR''))
      else if i = ''10.0.0.9'' then Rejects
      else Resolves (Some (geo_in ''US'')))"


subsection \<open>Country tables\<close>

text \<open>
  Both scripts turn a dictionary of country counts into a table whose entries carry the
  code, the name, the count and the percentage of a total.
\<close>

record country_info =
  ci_code :: string
  ci_name :: string
  ci_count :: nat
  ci_percentage :: jsnum

text \<open>\<open>COUNTRY_NAMES[code] || code\<close>, for any table of names.\<close>

definition getCountryName :: "(string \<rightharpoonup> string) \<Rightarrow> string \<Rightarrow> string" where
  "getCountryName names code =
     (case names code of None \<Rightarrow> code | Some n \<Rightarrow> if n = [] then code else n)"

text \<open>
  The traffic script: \<open>totalRequests\<close> adds up the requests of all minutes, and
  \<open>countryTotalsWithNames\<close> is built from \<open>Object.entries (countryTotals)\<close>.
\<close>

definition totalRequests :: "(string \<times> minute_bucket) list \<Rightarrow> nat" where
  "totalRequests md = foldl (+) 0 (map (req md) (sortedMinutes md))"

definition countryTotalsWithNames ::
  "(string \<rightharpoonup> string) \<Rightarrow> counters \<Rightarrow> nat \<Rightarrow> (string \<times> country_info) list" where
  "countryTotalsWithNames names totals tot =
     map (\<lambda>(code, n).
            (code, \<lparr>ci_code = code, ci_name = getCountryName names code,
                    ci_count = n, ci_percentage = percentage n tot\<rparr>))
       totals"

text \<open>\<open>.sort ((a, b) => b[1].count - a[1].count)\<close>: by count, largest first; the sort is
  stable.\<close>

definition by_count_desc :: "('a \<Rightarrow> nat) \<Rightarrow> (string \<times> 'a) list \<Rightarrow> (string \<times> 'a) list" where
  "by_count_desc cnt entries = sort_key (\<lambda>e. - int (cnt (snd e))) entries"

text \<open>The table \<open>sortedCountryTotals\<close> of the traffic script, from the state a run ends in.\<close>

definition sortedCountryTotals ::
  "(string \<rightharpoonup> string) \<Rightarrow> run_state \<Rightarrow> (string \<times> country_info) list" where
  "sortedCountryTotals names s =
     by_count_desc ci_count
       (countryTotalsWithNames names (countryTotals s) (totalRequests (minuteData s)))"

subsection \<open>The bot enrichment script\<close>

record bot_geo =
  geo_countries :: "(string \<times> country_info) list"
  top_cities :: counters
  timezones :: counters

record bot =
  bot_count :: nat
  ips :: "string list"
  user_agents :: "string list"
  info_urls :: "string list"
  geo :: "bot_geo option"

record tallies =
  countryCounts :: counters
  regionCounts :: counters
  cityCounts :: counters
  timezoneCounts :: counters

record progress =
  processedIPs :: nat
  failedLookups :: nat

text \<open>Truthiness of a string property, and \<open>geo.country || 'Unknown'\<close>.\<close>

definition truthy :: "string option \<Rightarrow> bool" where
  "truthy v = (case v of None \<Rightarrow> False | Some s \<Rightarrow> s \<noteq> [])"

definition or_unknown :: "string option \<Rightarrow> string" where
  "or_unknown v = (case v of None \<Rightarrow> ''Unknown'' | Some s \<Rightarrow> if s = [] then ''Unknown'' else s)"

text \<open>
  One iteration over a bot's addresses is \<open>lookup_ip\<close>. The iterations over the
  addresses and over the bots run one after the other, each \<open>await\<close> inside a
  \<open>for\<close> statement.
\<close>

definition empty_tallies :: tallies where
  "empty_tallies = \<lparr>countryCounts = [], regionCounts = [], cityCounts = [], timezoneCounts = []\<rparr>"

definition count_geo :: "geo_result \<Rightarrow> tallies \<Rightarrow> tallies" where
  "count_geo g t =
     (let c = or_unknown (country g);
          t1 = t\<lparr>countryCounts := incr c (countryCounts t)\<rparr>;
          t2 = (if truthy (region g)
                then t1\<lparr>regionCounts := incr (c @ ''-'' @ the (region g)) (regionCounts t1)\<rparr>
                else t1);
          t3 = (if truthy (city g)
                then t2\<lparr>cityCounts := incr (the (city g) @ '', '' @ c) (cityCounts t2)\<rparr>
                else t2)
      in if truthy (timezone g)
         then t3\<lparr>timezoneCounts := incr (the (timezone g)) (timezoneCounts t3)\<rparr>
         else t3)"

definition lookup_ip :: "lookup_outcome \<Rightarrow> tallies \<times> progress \<Rightarrow> tallies \<times> progress" where
  "lookup_ip outcome tp =
     (let (t, p0) = tp; p = p0\<lparr>processedIPs := processedIPs p0 + 1\<rparr> in
      case outcome of
        Resolves (Some g) \<Rightarrow> (count_geo g t, p)
      | Resolves None \<Rightarrow>
          (t\<lparr>countryCounts := incr ''Unknown'' (countryCounts t)\<rparr>,
           p\<lparr>failedLookups := failedLookups p + 1\<rparr>)
      | Rejects \<Rightarrow>
          (t\<lparr>countryCounts := incr ''Unknown'' (countryCounts t)\<rparr>,
           p\<lparr>failedLookups := failedLookups p + 1\<rparr>))"

fun lookup_ips :: "lookup \<Rightarrow> string list \<Rightarrow> tallies \<times> progress \<Rightarrow> tallies \<times> progress" where
  "lookup_ips geoip [] tp = tp"
| "lookup_ips geoip (i # rest) tp =
     lookup_ips geoip rest (lookup_ip (geoip (processedIPs (snd tp)) i) tp)"

definition enrich_bot ::
  "lookup \<Rightarrow> (string \<rightharpoonup> string) \<Rightarrow> bot \<Rightarrow> progress \<Rightarrow> bot \<times> progress" where
  "enrich_bot geoip names b p0 =
     (let (t, p) = lookup_ips geoip (ips b) (empty_tallies, p0);
          totalForBot = length (ips b);
          countryPercentages =
            map (\<lambda>(countryCode, n).
                   (countryCode,
                    \<lparr>ci_code = countryCode, ci_name = getCountryName names countryCode,
                     ci_count = n, ci_percentage = percentage n totalForBot\<rparr>))
              (countryCounts t);
          sortedCountries = by_count_desc ci_count countryPercentages;
          sortedCities = take 10 (by_count_desc id (cityCounts t))
      in (b\<lparr>geo := Some \<lparr>geo_countries = sortedCountries, top_cities = sortedCities,
                          timezones = timezoneCounts t\<rparr>\<rparr>, p))"

fun enrich_all ::
  "lookup \<Rightarrow> (string \<rightharpoonup> string) \<Rightarrow> (string \<times> bot) list \<Rightarrow> progress
     \<Rightarrow> (string \<times> bot) list \<times> progress" where
  "enrich_all geoip names [] p = ([], p)"
| "enrich_all geoip names ((botName, b) # rest) p =
     (let (b', p') = enrich_bot geoip names b p;
          (rest', p'') = enrich_all geoip names rest p'
      in ((botName, b') # rest', p''))"

text \<open>What the enrichment of one bot guarantees about its country table.\<close>

definition bot_enriched :: "bot \<Rightarrow> bot \<Rightarrow> bool" where
  "bot_enriched b b' \<longleftrightarrow>
     ips b' = ips b
   \<and> (\<exists>g. geo b' = Some g
        \<and> sum_list (map (\<lambda>e. ci_count (snd e)) (geo_countries g)) = length (ips b)
        \<and> (\<forall>e\<in>set (geo_countries g). ci_percentage (snd e) = percentage (ci_count (snd e)) (length (ips b))))"


subsection \<open>Rounding to double precision\<close>

lemma expo_bounds:
  assumes "x \<noteq> 0"
  shows "2 powi expo x \<le> \<bar>x\<bar> \<and> \<bar>x\<bar> < 2 powi (expo x + 1)"
proof -
  obtain p q where pq: "quotient_of \<bar>x\<bar> = (p, q)" by (cases "quotient_of \<bar>x\<bar>")
  have q: "0 < q" using quotient_of_denom_pos [OF pq] .
  have x: "\<bar>x\<bar> = of_int p / of_int q" using quotient_of_div [OF pq] .
  have p: "0 < p"
  proof -
    have "0 < \<bar>x\<bar>" using assms by simp
    with x q show ?thesis by (simp add: zero_less_divide_iff)
  qed
  define bp where "bp = bitlen p"
  define bq where "bq = bitlen q"
  have two: "(2::rat) powi k = of_int (2 ^ nat k)" if "0 \<le> k" for k
    using that by (simp add: power_int_def)
  have pb: "2 ^ nat (bp - 1) \<le> p" "p < 2 ^ nat bp"
    using bitlen_bounds [OF p] by (simp_all add: bp_def)
  have qb: "2 ^ nat (bq - 1) \<le> q" "q < 2 ^ nat bq"
    using bitlen_bounds [OF q] by (simp_all add: bq_def)
  have bp1: "1 \<le> bp"
  proof (rule ccontr)
    assume "\<not> 1 \<le> bp"
    then have "nat bp = 0" by simp
    with pb(2) p show False by simp
  qed
  have bq1: "1 \<le> bq"
  proof (rule ccontr)
    assume "\<not> 1 \<le> bq"
    then have "nat bq = 0" by simp
    with qb(2) q show False by simp
  qed
  have P1: "(2::rat) powi (bp - 1) \<le> of_int p"
    using pb(1) bp1 by (simp only: two of_int_le_iff) 
  have P2: "of_int p < (2::rat) powi bp"
    using pb(2) bp1 by (simp only: two of_int_less_iff)
  have Q1: "(2::rat) powi (bq - 1) \<le> of_int q"
    using qb(1) bq1 by (simp only: two of_int_le_iff)
  have Q2: "of_int q < (2::rat) powi bq"
    using qb(2) bq1 by (simp only: two of_int_less_iff)
  define d where "d = bp - bq"
  have Qpos: "(0::rat) < of_int q" using q by simp
  have pw: "(0::rat) < 2 powi k" for k by (simp add: zero_less_power_int)
  have lo: "(2::rat) powi (d - 1) \<le> \<bar>x\<bar>"
  proof -
    have "(2::rat) powi (d - 1) * of_int q \<le> 2 powi (d - 1) * 2 powi bq"
      using Q2 pw [of "d - 1"] by (intro mult_left_mono) simp_all
    also have "\<dots> = 2 powi (bp - 1)"
      by (simp add: d_def flip: power_int_add)
    also have "\<dots> \<le> of_int p" by (rule P1)
    finally show ?thesis using Qpos by (simp add: x pos_le_divide_eq)
  qed
  have hi: "\<bar>x\<bar> < (2::rat) powi (d + 1)"
  proof -
    have "of_int p < (2::rat) powi bp" by (rule P2)
    also have "\<dots> = 2 powi (d + 1) * 2 powi (bq - 1)"
      by (simp add: d_def flip: power_int_add)
    also have "\<dots> \<le> 2 powi (d + 1) * of_int q"
      using Q1 pw [of "d + 1"] by (intro mult_left_mono) simp_all
    finally show ?thesis using Qpos by (simp add: x pos_divide_less_eq)
  qed
  have e: "expo x = (if 2 powi d \<le> \<bar>x\<bar> then d else d - 1)"
    by (simp add: expo_def pq d_def bp_def bq_def)
  show ?thesis
  proof (cases "2 powi d \<le> \<bar>x\<bar>")
    case True
    with e hi show ?thesis by simp
  next
    case False
    with e lo show ?thesis by simp
  qed
qed

lemma rne_error: "\<bar>of_int (rne q) - q\<bar> \<le> 1 / 2"
proof -
  have "of_int \<lfloor>q\<rfloor> \<le> q" "q < of_int \<lfloor>q\<rfloor> + 1" by linarith+
  then show ?thesis by (auto simp: rne_def Let_def)
qed

lemma rne_of_int [simp]: "rne (of_int m) = m"
  by (simp add: rne_def)

lemma expo_ge:
  assumes "x \<noteq> 0" and "2 powi k \<le> \<bar>x\<bar>"
  shows "k \<le> expo x"
proof (rule ccontr)
  assume "\<not> k \<le> expo x"
  then have "expo x + 1 \<le> k" by simp
  then have "(2::rat) powi (expo x + 1) \<le> 2 powi k" by (intro power_int_increasing) simp_all
  with expo_bounds [OF assms(1)] assms(2) show False by linarith
qed

lemma expo_lt:
  assumes "x \<noteq> 0" and "\<bar>x\<bar> < 2 powi k"
  shows "expo x < k"
proof (rule ccontr)
  assume "\<not> expo x < k"
  then have "k \<le> expo x" by simp
  then have "(2::rat) powi k \<le> 2 powi expo x" by (intro power_int_increasing) simp_all
  with expo_bounds [OF assms(1)] assms(2) show False by linarith
qed

lemma expo_below:
  assumes "\<bar>y\<bar> < 2 powi 1024"
  shows "expo y < 1024"
proof (cases "y = 0")
  case True
  have "expo 0 = - 2" by code_simp
  with True show ?thesis by simp
next
  case False
  then show ?thesis using assms by (rule expo_lt)
qed

lemma round_to_unit:
  assumes "(0::rat) < u"
  shows "\<bar>of_int (rne (x / u)) * u - x\<bar> \<le> u / 2"
proof -
  have "of_int (rne (x / u)) * u - x = (of_int (rne (x / u)) - x / u) * u"
    using assms by (simp add: algebra_simps)
  then have "\<bar>of_int (rne (x / u)) * u - x\<bar> = \<bar>of_int (rne (x / u)) - x / u\<bar> * u"
    using assms by (simp add: abs_mult)
  also have "\<dots> \<le> (1 / 2) * u"
    using rne_error [of "x / u"] assms by (intro mult_right_mono) simp_all
  finally show ?thesis by simp
qed

lemma fl64_error:
  assumes lo: "2 powi (- 1022) \<le> \<bar>x\<bar>" and hi: "\<bar>x\<bar> \<le> 2 ^ 1000"
  shows "\<exists>y. fl64 x = Num y \<and> \<bar>y - x\<bar> \<le> \<bar>x\<bar> / 2 ^ 53"
proof -
  have "(0::rat) < 2 powi (- 1022)" by (rule zero_less_power_int) simp
  with lo have x0: "x \<noteq> 0" by auto
  define e where "e = expo x"
  have e: "- 1022 \<le> e" unfolding e_def using x0 lo by (rule expo_ge)
  define u :: rat where "u = 2 powi (e - 52)"
  have u0: "0 < u" unfolding u_def by (rule zero_less_power_int) simp
  define y where "y = of_int (rne (x / u)) * u"
  have "u = 2 powi e / 2 powi 52" unfolding u_def by (rule power_int_diff) simp
  then have "u / 2 = 2 powi e / 2 ^ 53" by simp
  also have "\<dots> \<le> \<bar>x\<bar> / 2 ^ 53"
    using expo_bounds [OF x0] by (simp add: e_def divide_right_mono)
  finally have u2: "u / 2 \<le> \<bar>x\<bar> / 2 ^ 53" .
  have err: "\<bar>y - x\<bar> \<le> \<bar>x\<bar> / 2 ^ 53"
    unfolding y_def using round_to_unit [OF u0, of x] u2 by linarith
  have "\<bar>x\<bar> / 2 ^ 53 \<le> \<bar>x\<bar>" by (simp add: field_simps)
  with err have "\<bar>y\<bar> \<le> 2 * \<bar>x\<bar>" by linarith
  with hi have "\<bar>y\<bar> \<le> 2 * 2 ^ 1000" by linarith
  also have "\<dots> < (2::rat) powi 1024" by simp
  finally have fin: "\<bar>y\<bar> < 2 powi 1024" .
  have "fl64 x = Num y"
    using x0 e expo_below [OF fin]
    by (simp add: fl64_def Let_def e_def [symmetric] max_absorb1 u_def [symmetric] y_def [symmetric])
  with err show ?thesis by blast
qed

lemma fl64_half_int:
  assumes "\<bar>of_int m / 2 :: rat\<bar> < 2 ^ 52"
  shows "fl64 (of_int m / 2) = Num (of_int m / 2)"
proof (cases "m = 0")
  case True
  then show ?thesis by (simp add: fl64_def)
next
  case False
  define v :: rat where "v = of_int m / 2"
  have v0: "v \<noteq> 0" using False by (simp add: v_def)
  have "\<bar>v\<bar> < 2 powi 52" using assms by (simp add: v_def)
  then have "expo v < 52" using v0 by (intro expo_lt)
  define e where "e = max (expo v) (- 1022)"
  have e: "e \<le> 51" using \<open>expo v < 52\<close> by (simp add: e_def)
  define n where "n = nat (51 - e)"
  have en: "e - 52 = - int (Suc n)" using e by (simp add: n_def)
  define u :: rat where "u = 2 powi (e - 52)"
  have u: "u = 1 / (2 * 2 ^ n)"
    unfolding u_def en by (simp add: power_int_minus field_simps del: of_nat_Suc)
  have q: "v / u = of_int (m * 2 ^ n)" by (simp add: u v_def)
  have y: "of_int (rne (v / u)) * u = v"
    by (simp only: q rne_of_int) (simp add: u v_def)
  have "\<bar>v\<bar> < 2 powi 1024" using assms unfolding v_def by simp
  then have "expo v < 1024" by (rule expo_below)
  then have "fl64 v = Num v"
    using v0 by (simp add: fl64_def Let_def e_def [symmetric] u_def [symmetric] y)
  then show ?thesis by (simp add: v_def)
qed

lemma fl64_int:
  assumes "\<bar>m\<bar> < 2 ^ 52"
  shows "fl64 (of_int m) = Num (of_int m)"
proof -
  have "\<bar>of_int (2 * m) / 2 :: rat\<bar> < 2 ^ 52"
  proof -
    have "\<bar>of_int (2 * m) / 2 :: rat\<bar> = of_int \<bar>m\<bar>" by simp
    also have "\<dots> < of_int (2 ^ 52)" using assms by (simp only: of_int_less_iff)
    finally show ?thesis by simp
  qed
  from fl64_half_int [OF this] show ?thesis by simp
qed

lemma round_near:
  fixes s :: int and n :: nat and y :: rat
  assumes n: "0 < n" and near: "\<bar>y - of_int s / of_nat n\<bar> * of_nat n < 1 / 2"
  shows "math_round y = math_round (of_int s / of_nat n)
         \<or> (2 * s = (2 * math_round (of_int s / of_nat n) - 1) * int n
            \<and> math_round y = math_round (of_int s / of_nat n) - 1)"
proof -
  define N :: rat where "N = of_nat n"
  define S :: rat where "S = of_int s"
  define k where "k = math_round (S / N)"
  define K :: rat where "K = of_int k"
  have N0: "0 < N" using n by (simp add: N_def)
  have "K \<le> S / N + 1 / 2" "S / N + 1 / 2 < K + 1"
    unfolding K_def k_def math_round_def by linarith+
  then have r1: "(2 * K - 1) * N \<le> 2 * S" and r2: "2 * S < (2 * K + 1) * N"
    using N0 by (simp_all add: field_simps)
  have i1: "(2 * k - 1) * int n \<le> 2 * s"
  proof -
    from r1 have "(of_int ((2 * k - 1) * int n) :: rat) \<le> of_int (2 * s)"
      by (simp add: K_def N_def S_def)
    then show ?thesis by (simp only: of_int_le_iff)
  qed
  have i2: "2 * s + 1 \<le> (2 * k + 1) * int n"
  proof -
    from r2 have "(of_int (2 * s) :: rat) < of_int ((2 * k + 1) * int n)"
      by (simp add: K_def N_def S_def)
    then have "2 * s < (2 * k + 1) * int n" by (simp only: of_int_less_iff)
    then show ?thesis by simp
  qed
  from i2 have "(of_int (2 * s + 1) :: rat) \<le> of_int ((2 * k + 1) * int n)"
    by (simp only: of_int_le_iff)
  then have u: "2 * S + 1 \<le> 2 * (K * N) + N" by (simp add: K_def N_def S_def algebra_simps)
  have yN: "\<bar>y * N - S\<bar> < 1 / 2"
  proof -
    have "y * N - S = (y - S / N) * N" using N0 by (simp add: field_simps)
    then have "\<bar>y * N - S\<bar> = \<bar>y - S / N\<bar> * N" using N0 by (simp add: abs_mult)
    with near show ?thesis by (simp add: N_def S_def)
  qed
  have up: "y + 1 / 2 < K + 1"
  proof -
    have "(K + 1 / 2) * N = K * N + N / 2" by (simp add: algebra_simps)
    with yN u have "y * N < (K + 1 / 2) * N" by linarith
    then have "y < K + 1 / 2" using N0 by (simp only: mult_less_cancel_right_pos)
    then show ?thesis by simp
  qed
  have low1: "K - 1 \<le> y + 1 / 2"
  proof -
    have "1 \<le> N" using n by (simp add: N_def)
    moreover have "(K - 3 / 2) * N = K * N - 3 * N / 2" by (simp add: algebra_simps)
    moreover from r1 have "2 * (K * N) - N \<le> 2 * S" by (simp add: algebra_simps)
    ultimately have "(K - 3 / 2) * N \<le> y * N" using yN by linarith
    then have "K - 3 / 2 \<le> y" using N0 by (simp only: mult_le_cancel_right_pos)
    then show ?thesis by simp
  qed
  show ?thesis
  proof (cases "2 * s = (2 * k - 1) * int n")
    case True
    have "math_round y = k \<or> math_round y = k - 1"
    proof (cases "K \<le> y + 1 / 2")
      case True
      with up have "\<lfloor>y + 1 / 2\<rfloor> = k" unfolding K_def by (intro floor_unique) simp_all
      then show ?thesis by (simp add: math_round_def)
    next
      case False
      with low1 have "\<lfloor>y + 1 / 2\<rfloor> = k - 1" unfolding K_def by (intro floor_unique) simp_all
      then show ?thesis by (simp add: math_round_def)
    qed
    with True show ?thesis by (auto simp: k_def S_def N_def)
  next
    case False
    with i1 have "(2 * k - 1) * int n + 1 \<le> 2 * s" by simp
    then have "(of_int ((2 * k - 1) * int n + 1) :: rat) \<le> of_int (2 * s)"
      by (simp only: of_int_le_iff)
    then have l: "2 * (K * N) - N + 1 \<le> 2 * S" by (simp add: K_def N_def S_def algebra_simps)
    have "(K - 1 / 2) * N = K * N - N / 2" by (simp add: algebra_simps)
    with yN l have "(K - 1 / 2) * N < y * N" by linarith
    then have "K - 1 / 2 < y" using N0 by (simp only: mult_less_cancel_right_pos)
    with up have "\<lfloor>y + 1 / 2\<rfloor> = k" unfolding K_def by (intro floor_unique) simp_all
    then show ?thesis by (simp add: math_round_def k_def S_def N_def)
  qed
qed

lemma math_round_0 [simp]: "math_round 0 = 0"
  unfolding math_round_def by (rule floor_unique) simp_all

lemma normal_lower:
  fixes x :: rat and n :: nat
  assumes "1 / of_nat n \<le> \<bar>x\<bar>" and "0 < n" and "n < 2 ^ 52"
  shows "2 powi (- 1022) \<le> \<bar>x\<bar>"
proof -
  have "(2::rat) powi (- 1022) \<le> 2 powi (- 52)" by (intro power_int_increasing) simp_all
  also have "\<dots> = 1 / 2 ^ 52" by (simp add: power_int_minus field_simps)
  also have "\<dots> \<le> 1 / of_nat n"
  proof -
    from assms(3) have "(of_nat n :: rat) < of_nat (2 ^ 52)" by (simp only: of_nat_less_iff)
    then have "(of_nat n :: rat) \<le> 2 ^ 52" by simp
    moreover have "(0::rat) < of_nat n" using assms(2) by simp
    ultimately show ?thesis by (intro divide_left_mono) simp_all
  qed
  also note assms(1)
  finally show ?thesis .
qed

lemma round_quotient:
  fixes s :: int and n :: nat
  assumes n: "0 < n" and nb: "n < 2 ^ 52" and sb: "\<bar>s\<bar> < 2 ^ 52"
  shows "js_round (js_div_count (Num (of_int s)) n) = Num (of_int (math_round (of_int s / of_nat n)))"
proof (cases "s = 0")
  case True
  with n show ?thesis by (simp add: fl64_def)
next
  case False
  define N :: rat where "N = of_nat n"
  define S :: rat where "S = of_int s"
  define q where "q = S / N"
  have N0: "0 < N" using n by (simp add: N_def)
  have N1: "1 \<le> N" using n by (simp add: N_def)
  have "1 \<le> \<bar>s\<bar>" using False by simp
  then have "(of_int 1 :: rat) \<le> of_int \<bar>s\<bar>" by (simp only: of_int_le_iff)
  then have S1: "1 \<le> \<bar>S\<bar>" by (simp add: S_def)
  from sb have "(of_int \<bar>s\<bar> :: rat) < of_int (2 ^ 52)" by (simp only: of_int_less_iff)
  then have S2: "\<bar>S\<bar> < 2 ^ 52" by (simp add: S_def)
  have aq: "\<bar>q\<bar> = \<bar>S\<bar> / N" using N0 by (simp add: q_def)
  have "1 / N \<le> \<bar>q\<bar>" using S1 N0 by (simp add: aq divide_right_mono)
  then have lo: "2 powi (- 1022) \<le> \<bar>q\<bar>" unfolding N_def using n nb by (rule normal_lower)
  have qS: "\<bar>q\<bar> \<le> \<bar>S\<bar>"
  proof -
    have "\<bar>S\<bar> / N \<le> \<bar>S\<bar> / 1" using N1 by (intro divide_left_mono) simp_all
    then show ?thesis by (simp add: aq)
  qed
  also have "\<dots> \<le> 2 ^ 1000" using S2 by simp
  finally have hi: "\<bar>q\<bar> \<le> 2 ^ 1000" .
  from fl64_error [OF lo hi] obtain y where y: "fl64 q = Num y" and err: "\<bar>y - q\<bar> \<le> \<bar>q\<bar> / 2 ^ 53"
    by blast
  have "\<bar>y - q\<bar> * N \<le> \<bar>q\<bar> / 2 ^ 53 * N" using err N0 by (intro mult_right_mono) simp_all
  also have "\<dots> = \<bar>S\<bar> / 2 ^ 53" using N0 by (simp add: aq)
  also have "\<dots> < 1 / 2" using S2 by simp
  finally have near: "\<bar>y - of_int s / of_nat n\<bar> * of_nat n < 1 / 2"
    by (simp add: q_def S_def N_def)
  define k where "k = math_round (of_int s / of_nat n)"
  have "math_round y = k"
  proof (cases "2 * s = (2 * k - 1) * int n")
    case True
    then have "(of_int (2 * s) :: rat) = of_int ((2 * k - 1) * int n)" by simp
    then have "2 * S = of_int (2 * k - 1) * N" by (simp add: S_def N_def)
    then have qh: "q = of_int (2 * k - 1) / 2" using N0 by (simp add: q_def field_simps)
    have "\<bar>q\<bar> < 2 ^ 52" using qS S2 by simp
    then have "fl64 q = Num q" unfolding qh by (rule fl64_half_int)
    with y have "y = q" by simp
    then show ?thesis by (simp add: k_def q_def S_def N_def)
  next
    case False
    with round_near [OF n near] show ?thesis by (simp add: k_def)
  qed
  with y n show ?thesis by (simp add: k_def q_def S_def N_def)
qed

lemma percentage_rounding_core:
  fixes c t :: nat
  assumes t: "0 < t" and tb: "t < 2 ^ 52" and cb: "c \<le> 100000000000"
  shows "\<exists>N. js_round (js_mul (js_div_count (Num (of_nat c)) t) (Num 10000)) = Num (of_int N)
           \<and> (N = math_round (of_int (10000 * int c) / of_nat t)
              \<or> (2 * (10000 * int c) = (2 * math_round (of_int (10000 * int c) / of_nat t) - 1) * int t
                 \<and> N = math_round (of_int (10000 * int c) / of_nat t) - 1))"
proof (cases "c = 0")
  case True
  with t show ?thesis by (simp add: fl64_def)
next
  case False
  define T :: rat where "T = of_nat t"
  define C :: rat where "C = of_nat c"
  define p where "p = C / T"
  have T0: "0 < T" using t by (simp add: T_def)
  have T1: "1 \<le> T" using t by (simp add: T_def)
  have C1: "1 \<le> C" using False by (simp add: C_def)
  from cb have "(of_nat c :: rat) \<le> of_nat 100000000000" by (simp only: of_nat_le_iff)
  then have C2: "C \<le> 100000000000" by (simp add: C_def)
  have p0: "0 < p" using C1 T0 by (simp add: p_def)
  note t52 = tb
  have pT: "1 / T \<le> p" using C1 T0 by (simp add: p_def divide_right_mono)
  have pC: "p \<le> C"
  proof -
    have "C / T \<le> C / 1" using T1 C1 by (intro divide_left_mono) simp_all
    then show ?thesis by (simp add: p_def)
  qed
  have "1 / of_nat t \<le> \<bar>p\<bar>" using pT p0 by (simp add: T_def)
  then have lo: "2 powi (- 1022) \<le> \<bar>p\<bar>" using t t52 by (rule normal_lower)
  have hi: "\<bar>p\<bar> \<le> 2 ^ 1000" using pC C2 p0 by simp
  from fl64_error [OF lo hi] p0 obtain a where a: "fl64 p = Num a" and ea: "\<bar>a - p\<bar> \<le> p / 2 ^ 53"
    by auto
  have small: "p / 2 ^ 53 \<le> p / 2" using p0 by simp
  have a1: "p / 2 \<le> a" and a2: "a \<le> 2 * p" using ea p0 small by linarith+
  have "1 / of_nat t \<le> \<bar>a * 10000\<bar>" using pT a1 p0 by (simp add: T_def)
  then have lo': "2 powi (- 1022) \<le> \<bar>a * 10000\<bar>" using t t52 by (rule normal_lower)
  have hi': "\<bar>a * 10000\<bar> \<le> 2 ^ 1000" using a1 a2 pC C2 p0 by simp
  from fl64_error [OF lo' hi'] a1 p0 obtain b where b: "fl64 (a * 10000) = Num b"
      and eb: "\<bar>b - a * 10000\<bar> \<le> a * 10000 / 2 ^ 53"
    by auto
  have "a * 10000 / 2 ^ 53 \<le> 20000 * p / 2 ^ 53" using a2 by simp
  moreover have "30000 * p / 2 ^ 53 = 20000 * p / 2 ^ 53 + 10000 * (p / 2 ^ 53)" by simp
  ultimately have "\<bar>b - 10000 * p\<bar> \<le> 30000 * p / 2 ^ 53" using ea eb by linarith
  then have "\<bar>b - 10000 * p\<bar> * T \<le> 30000 * p / 2 ^ 53 * T" using T0 by (intro mult_right_mono) simp_all
  also have "\<dots> = 30000 * C / 2 ^ 53" using T0 by (simp add: p_def)
  also have "\<dots> < 1 / 2" using C2 by simp
  finally have near: "\<bar>b - of_int (10000 * int c) / of_nat t\<bar> * of_nat t < 1 / 2"
    by (simp add: p_def C_def T_def)
  have "js_round (js_mul (js_div_count (Num (of_nat c)) t) (Num 10000)) = Num (of_int (math_round b))"
    using t a b by (simp add: p_def C_def T_def)
  with round_near [OF t near] show ?thesis by auto
qed

subsection \<open>Properties of the downsampler\<close>

lemma ceil_mult_bounds:
  assumes "0 < (t::nat)"
  shows "n \<le> ((n + t - 1) div t) * t" and "((n + t - 1) div t) * t < n + t"
proof -
  have "n + t - 1 < t + ((n + t - 1) div t) * t"
    using assms by (rule dividend_less_div_times)
  with assms show "n \<le> ((n + t - 1) div t) * t" by linarith
  have "((n + t - 1) div t) * t \<le> n + t - 1"
    by (rule div_times_less_eq_dividend)
  with assms show "((n + t - 1) div t) * t < n + t" by linarith
qed

lemma ceil_div_nat:
  assumes "0 < t"
  shows "\<lceil>(of_nat n :: rat) / of_nat t\<rceil> = int ((n + t - 1) div t)"
proof -
  define q where "q = (n + t - 1) div t"
  have A: "n \<le> q * t" and B: "q * t < n + t"
    using ceil_mult_bounds [OF assms, of n] by (simp_all add: q_def)
  have tpos: "(0::rat) < of_nat t" using assms by simp
  have "\<lceil>(of_nat n :: rat) / of_nat t\<rceil> = int q"
  proof (rule ceiling_unique)
    have "(of_nat (q * t) :: rat) < of_nat (n + t)"
      using B by (simp only: of_nat_less_iff)
    then have "(of_nat q - 1) * (of_nat t :: rat) < of_nat n"
      by (simp add: algebra_simps)
    then show "of_int (int q) - 1 < (of_nat n :: rat) / of_nat t"
      using tpos by (simp add: pos_less_divide_eq)
    have "(of_nat n :: rat) \<le> of_nat (q * t)"
      using A by (simp only: of_nat_le_iff)
    then show "(of_nat n :: rat) / of_nat t \<le> of_int (int q)"
      using tpos by (simp add: pos_divide_le_eq)
  qed
  then show ?thesis by (simp add: q_def)
qed

lemma math_ceil_div_pos:
  "0 < t \<Longrightarrow> math_ceil_div n (int t) = Finite (int ((n + t - 1) div t))"
  by (simp add: math_ceil_div_def ceil_div_nat)

text \<open>
  For an array of fewer than \<open>2 ^ 32\<close> rows and a positive target below its length, the
  quotient rounded to double precision has the ceiling of the exact quotient, which is
  what \<open>math_ceil_div\<close> takes.
\<close>

lemma ceil_quotient_double:
  fixes n t :: nat
  assumes t: "0 < t" and tn: "t < n" and nb: "n < 2 ^ 32"
  shows "\<exists>y. fl64 (of_nat n / of_nat t) = Num y \<and> \<lceil>y\<rceil> = \<lceil>(of_nat n :: rat) / of_nat t\<rceil>"
proof -
  define N :: rat where "N = of_nat n"
  define T :: rat where "T = of_nat t"
  define q where "q = N / T"
  define k where "k = \<lceil>q\<rceil>"
  define K :: rat where "K = of_int k"
  have T0: "0 < T" and T1: "1 \<le> T" using t by (simp_all add: T_def)
  have NT: "T < N" using tn by (simp add: N_def T_def)
  from nb have "(of_nat n :: rat) < of_nat (2 ^ 32)" by (simp only: of_nat_less_iff)
  then have N2: "N < 2 ^ 32" by (simp add: N_def)
  have q1: "1 < q" using NT T0 by (simp add: q_def)
  have qN: "q \<le> N"
  proof -
    have "N / T \<le> N / 1" using T1 NT T0 by (intro divide_left_mono) simp_all
    then show ?thesis by (simp add: q_def)
  qed
  have t52: "t < 2 ^ 52" using tn nb by simp
  have "1 / T \<le> 1 / 1" using T1 by (intro divide_left_mono) simp_all
  with q1 have "1 / of_nat t \<le> \<bar>q\<bar>" by (simp add: T_def)
  then have lo: "2 powi (- 1022) \<le> \<bar>q\<bar>" using t t52 by (rule normal_lower)
  have hi: "\<bar>q\<bar> \<le> 2 ^ 1000" using qN N2 q1 by simp
  from fl64_error [OF lo hi] q1 obtain y where y: "fl64 q = Num y" and err: "\<bar>y - q\<bar> \<le> q / 2 ^ 53"
    by auto
  have "K - 1 < q" "q \<le> K" unfolding K_def k_def by linarith+
  then have r1: "K * T - T < N" and r2: "N \<le> K * T"
    using T0 by (simp_all add: q_def field_simps)
  have i2: "int n \<le> k * int t"
  proof -
    from r2 have "(of_int (int n) :: rat) \<le> of_int (k * int t)" by (simp add: K_def N_def T_def)
    then show ?thesis by (simp only: of_int_le_iff)
  qed
  have i1: "k * int t - int t + 1 \<le> int n"
  proof -
    from r1 have "(of_int (k * int t - int t) :: rat) < of_int (int n)" by (simp add: K_def N_def T_def)
    then have "k * int t - int t < int n" by (simp only: of_int_less_iff)
    then show ?thesis by simp
  qed
  have "\<lceil>y\<rceil> = k"
  proof (cases "int n = k * int t")
    case True
    then have "(of_int (int n) :: rat) = of_int (k * int t)" by simp
    then have "N = K * T" by (simp add: K_def N_def T_def)
    then have qk: "q = of_int k" using T0 by (simp add: q_def K_def)
    have "(of_int \<bar>k\<bar> :: rat) < of_int (2 ^ 52)" using qk q1 qN N2 by simp
    then have "\<bar>k\<bar> < 2 ^ 52" by (simp only: of_int_less_iff)
    then have "fl64 (of_int k) = Num (of_int k)" by (rule fl64_int)
    with y qk have "y = of_int k" by simp
    then show ?thesis by simp
  next
    case False
    with i2 have "int n + 1 \<le> k * int t" by simp
    then have "(of_int (int n + 1) :: rat) \<le> of_int (k * int t)" by (simp only: of_int_le_iff)
    then have u: "N + 1 \<le> K * T" by (simp add: K_def N_def T_def)
    from i1 have "(of_int (k * int t - int t + 1) :: rat) \<le> of_int (int n)" by (simp only: of_int_le_iff)
    then have l: "K * T - T + 1 \<le> N" by (simp add: K_def N_def T_def)
    have "\<bar>y - q\<bar> * T \<le> q / 2 ^ 53 * T" using err T0 by (intro mult_right_mono) simp_all
    also have "\<dots> = N / 2 ^ 53" using T0 by (simp add: q_def)
    also have "\<dots> < 1" using N2 by simp
    finally have d: "\<bar>y - q\<bar> * T < 1" .
    have "y * T - N = (y - q) * T" using T0 by (simp add: q_def field_simps)
    then have "\<bar>y * T - N\<bar> = \<bar>y - q\<bar> * T" using T0 by (simp add: abs_mult)
    with d have yN: "\<bar>y * T - N\<bar> < 1" by simp
    from yN u have "y * T < K * T" by linarith
    then have up: "y < K" using T0 by (simp only: mult_less_cancel_right_pos)
    have "(K - 1) * T = K * T - T" by (simp add: algebra_simps)
    with yN l have "(K - 1) * T < y * T" by linarith
    then have "K - 1 < y" using T0 by (simp only: mult_less_cancel_right_pos)
    with up show ?thesis unfolding K_def by (intro ceiling_unique) simp_all
  qed
  with y show ?thesis by (simp add: k_def q_def N_def T_def)
qed

lemma ceil_step:
  assumes "0 < (w::nat)" "0 < n"
  shows "Suc ((n - w + w - 1) div w) = (n + w - 1) div w"
proof (cases "n \<le> w")
  case True
  with assms have "(n - w + w - 1) div w = 0" by simp
  moreover from True assms have "(n + w - 1) div w = 1"
    by (simp add: div_nat_eqI)
  ultimately show ?thesis by simp
next
  case False
  then have "n - w + w - 1 = n - 1" by simp
  moreover from assms have "n + w - 1 = (n - 1) + w" by simp
  moreover from assms have "(n - 1 + w) div w = (n - 1) div w + 1"
    by (intro div_add_self2) simp
  ultimately show ?thesis by simp
qed

lemma windows_length: "0 < r \<Longrightarrow> length (windows r xs) = (length xs + r - 1) div r"
proof (induction r xs rule: windows.induct)
  case (1 w xs)
  show ?case
  proof (cases "xs = []")
    case True
    with 1 show ?thesis by (simp add: windows.simps)
  next
    case False
    with 1 have "length (windows w xs) = Suc ((length xs - w + w - 1) div w)"
      by (subst windows.simps) simp
    also have "\<dots> = (length xs + w - 1) div w"
      using 1(2) False by (intro ceil_step) simp_all
    finally show ?thesis .
  qed
qed

lemma out_bound:
  assumes "0 < t" "t < n"
  shows "(n + ((n + t - 1) div t) - 1) div ((n + t - 1) div t) \<le> (t::nat)"
proof -
  define ws where "ws = (n + t - 1) div t"
  have A: "n \<le> ws * t" using ceil_mult_bounds(1) [OF assms(1), of n] by (simp add: ws_def)
  have "0 < ws" using A assms by (cases ws) simp_all
  have "n + ws - 1 < Suc t * ws"
    using A \<open>0 < ws\<close> by (simp add: mult.commute)
  then have "(n + ws - 1) div ws < Suc t"
    by (rule less_mult_imp_div_less)
  then show ?thesis by (simp add: ws_def)
qed


lemma length_int_rows [simp]: "length (int_rows rows) = length rows"
  by (simp add: int_rows_def)

lemma int_rows_window: "take r (drop k (int_rows rows)) = int_rows (take r (drop k rows))"
  by (simp add: int_rows_def take_map drop_map)

lemma int_rows_append [simp]: "int_rows (xs @ ys) = int_rows xs @ int_rows ys"
  by (simp add: int_rows_def)

lemma slice_window:
  assumes "k < length xs"
  shows "js_slice (int k) (index_min (index_add (Finite (int k)) (Finite (int r))) (length xs)) xs
         = take r (drop k xs)"
proof (cases "k + r \<le> length xs")
  case True
  then have "min (int k + int r) (int (length xs)) = int (k + r)" by simp
  with assms show ?thesis by (simp add: js_slice_def Let_def)
next
  case False
  then have "min (int k + int r) (int (length xs)) = int (length xs)" by simp
  moreover from False have "take r (drop k xs) = drop k xs" by simp
  ultimately show ?thesis using assms by (simp add: js_slice_def Let_def)
qed

lemma loop_stop: "length data \<le> k \<Longrightarrow> downsample_loop data ratio (Finite (int k)) res = Inr res"
  by (subst downsample_loop.simps) simp

lemma loop_step:
  assumes "k < length data" and "take r (drop k data) = row0 # rest"
  shows "downsample_loop data (Finite (int r)) (Finite (int k)) res
         = downsample_loop data (Finite (int r)) (Finite (int (k + r)))
             (res @ [map (col_avg (row0 # rest)) [0..<length row0]])"
proof -
  have "js_slice (int k) (index_min (index_add (Finite (int k)) (Finite (int r))) (length data)) data
        = row0 # rest"
    using slice_window [OF assms(1), of r] assms(2) by simp
  then show ?thesis
    using assms(1) by (subst downsample_loop.simps) simp
qed

lemma loop3_stop: "length data \<le> k \<Longrightarrow> downsample3_loop data ratio (Finite (int k)) res = Some res"
  by (subst downsample3_loop.simps) simp

lemma loop3_step:
  assumes "k < length data"
  shows "downsample3_loop data (Finite (int r)) (Finite (int k)) res
         = downsample3_loop data (Finite (int r)) (Finite (int (k + r)))
             (res @ [[col_avg (take r (drop k data)) 0, col_avg (take r (drop k data)) 1,
                      col_avg (take r (drop k data)) 2]])"
proof -
  have "js_slice (int k) (index_min (index_add (Finite (int k)) (Finite (int r))) (length data)) data
        = take r (drop k data)"
    using assms by (rule slice_window)
  then show ?thesis
    using assms by (subst downsample3_loop.simps) (simp add: Let_def)
qed

lemma foldl_js_add:
  assumes "\<forall>row\<in>set win. c < length row"
    and "\<bar>a\<bar> + sum_list (map (\<lambda>row. \<bar>row ! c\<bar>) win) < 2 ^ 52"
  shows "foldl (\<lambda>s row. js_add s (cell row c)) (Num (of_int a)) (int_rows win)
         = Num (of_int (a + sum_list (map (\<lambda>row. row ! c) win)))"
  using assms
proof (induction win arbitrary: a)
  case Nil
  then show ?case by (simp add: int_rows_def)
next
  case (Cons row win)
  have c: "cell (map (\<lambda>x. Num (of_int x)) row) c = Num (of_int (row ! c))"
    using Cons.prems(1) by (simp add: cell_def)
  have "0 \<le> sum_list (map (\<lambda>row. \<bar>row ! c\<bar>) win)" by (rule sum_list_nonneg) auto
  with Cons.prems(2) have small: "\<bar>a + row ! c\<bar> < 2 ^ 52" by simp
  have add: "js_add (Num (of_int a)) (Num (of_int (row ! c))) = Num (of_int (a + row ! c))"
    using fl64_int [OF small] by simp
  have "\<bar>a + row ! c\<bar> + sum_list (map (\<lambda>row. \<bar>row ! c\<bar>) win) < 2 ^ 52"
    using Cons.prems(2) by simp
  with Cons.IH [of "a + row ! c"] Cons.prems(1)
  have "foldl (\<lambda>s row. js_add s (cell row c)) (Num (of_int (a + row ! c))) (int_rows win)
        = Num (of_int (a + row ! c + sum_list (map (\<lambda>row. row ! c) win)))"
    by simp
  then show ?case
    using c add by (simp add: int_rows_def add.assoc)
qed

lemma col_avg_spec:
  assumes "win \<noteq> []" and "\<forall>row\<in>set win. c < length row"
    and "sum_list (map (\<lambda>row. \<bar>row ! c\<bar>) win) < 2 ^ 52" and "length win < 2 ^ 52"
  shows "col_avg (int_rows win) c = Num (of_int (spec_round (spec_mean (map (\<lambda>row. row ! c) win))))"
proof -
  define s where "s = sum_list (map (\<lambda>row. row ! c) win)"
  have "\<bar>s\<bar> \<le> sum_list (map abs (map (\<lambda>row. row ! c) win))"
    unfolding s_def by (rule sum_list_abs)
  also have "\<dots> = sum_list (map (\<lambda>row. \<bar>row ! c\<bar>) win)" by (simp add: comp_def)
  finally have sb: "\<bar>s\<bar> < 2 ^ 52" using assms(3) by simp
  have "foldl (\<lambda>s row. js_add s (cell row c)) (Num (of_int 0)) (int_rows win) = Num (of_int (0 + s))"
    unfolding s_def using assms(2,3) by (intro foldl_js_add) simp_all
  then have f: "foldl (\<lambda>s row. js_add s (cell row c)) (Num 0) (int_rows win) = Num (of_int s)"
    by simp
  have n: "0 < length win" using assms(1) by simp
  show ?thesis
    unfolding col_avg_def f length_int_rows
    by (simp only: round_quotient [OF n assms(4) sb])
       (simp add: spec_round_def math_round_def spec_mean_def s_def)
qed

lemma sum_list_bounded:
  fixes f :: "'a \<Rightarrow> int"
  assumes "\<forall>x\<in>set xs. f x \<le> b"
  shows "sum_list (map f xs) \<le> b * int (length xs)"
  using assms by (induction xs) (simp_all add: algebra_simps)

lemma row_avg_spec:
  assumes ne: "win \<noteq> []" and w: "\<forall>row\<in>set win. length row = w"
    and bnd: "\<forall>row\<in>set win. \<forall>x\<in>set row. \<bar>x\<bar> \<le> b"
    and b1: "1 \<le> b" and bl: "b * int (length win) < 2 ^ 52"
  shows "map (col_avg (int_rows win)) [0..<w]
         = map (\<lambda>x. Num (of_int x)) (spec_row w win)"
proof -
  have len: "length win < 2 ^ 52"
  proof -
    have "1 * int (length win) \<le> b * int (length win)" using b1 by (intro mult_right_mono) simp_all
    with bl have "int (length win) < 2 ^ 52" by simp
    then have "int (length win) < int (2 ^ 52)" by simp
    then show ?thesis by (simp only: of_nat_less_iff)
  qed
  have "col_avg (int_rows win) c = Num (of_int (spec_round (spec_mean (map (\<lambda>row. row ! c) win))))"
    if c: "c < w" for c
  proof -
    have inb: "\<forall>row\<in>set win. c < length row" using w c by simp
    have "\<forall>row\<in>set win. \<bar>row ! c\<bar> \<le> b" using bnd inb by auto
    then have "sum_list (map (\<lambda>row. \<bar>row ! c\<bar>) win) \<le> b * int (length win)"
      by (rule sum_list_bounded)
    with bl have "sum_list (map (\<lambda>row. \<bar>row ! c\<bar>) win) < 2 ^ 52" by simp
    with ne inb show ?thesis using len by (intro col_avg_spec)
  qed
  then show ?thesis by (simp add: spec_row_def)
qed

lemma window_bounds:
  assumes bnd: "\<forall>row\<in>set rows. \<forall>x\<in>set row. \<bar>x\<bar> \<le> b"
    and b1: "(1::int) \<le> b" and bl: "b * int (length rows) < 2 ^ 52"
  shows "(\<forall>row\<in>set (take r (drop k rows)). \<forall>x\<in>set row. \<bar>x\<bar> \<le> b)
       \<and> b * int (length (take r (drop k rows))) < 2 ^ 52"
proof -
  have sub: "set (take r (drop k rows)) \<subseteq> set rows"
    by (meson set_take_subset set_drop_subset subset_trans)
  have "int (length (take r (drop k rows))) \<le> int (length rows)" by simp
  then have "b * int (length (take r (drop k rows))) \<le> b * int (length rows)"
    using b1 by (intro mult_left_mono) simp_all
  with bl sub bnd show ?thesis by auto
qed

lemma windows_unfold:
  "0 < r \<Longrightarrow> k < length xs \<Longrightarrow>
   windows r (drop k xs) = take r (drop k xs) # windows r (drop (k + r) xs)"
  by (subst windows.simps) (simp add: add.commute)

lemma windows_Nil [simp]: "windows r [] = []"
  by (subst windows.simps) simp

lemma windows_done: "length xs \<le> k \<Longrightarrow> windows r (drop k xs) = []"
  by (subst windows.simps) simp

lemma loop_spec:
  assumes r: "0 < r" and w: "\<forall>row\<in>set rows. length row = w"
    and bnd: "\<forall>row\<in>set rows. \<forall>x\<in>set row. \<bar>x\<bar> \<le> b"
    and b1: "1 \<le> b" and bl: "b * int (length rows) < 2 ^ 52"
  shows "downsample_loop (int_rows rows) (Finite (int r)) (Finite (int k)) res
         = Inr (res @ int_rows (map (spec_row w) (windows r (drop k rows))))"
proof (induction "length rows - k" arbitrary: k res rule: less_induct)
  case less
  show ?case
  proof (cases "k < length rows")
    case False
    then show ?thesis
      by (simp add: loop_stop windows_done int_rows_def)
  next
    case True
    define win where "win = take r (drop k rows)"
    from True r have ne: "win \<noteq> []" by (simp add: win_def)
    then obtain row0 rest where win: "win = row0 # rest" by (cases win) auto
    have sub: "set win \<subseteq> set rows"
      unfolding win_def by (meson set_take_subset set_drop_subset subset_trans)
    with w have ww: "\<forall>row\<in>set win. length row = w" by auto
    with win have l0: "length row0 = w" by simp
    have wb: "\<forall>row\<in>set win. \<forall>x\<in>set row. \<bar>x\<bar> \<le> b" "b * int (length win) < 2 ^ 52"
      using window_bounds [OF bnd b1 bl, of r k] by (simp_all add: win_def)
    have avg: "map (col_avg (int_rows win)) [0..<w] = map (\<lambda>x. Num (of_int x)) (spec_row w win)"
      using ne ww wb(1) b1 wb(2) by (rule row_avg_spec)
    have iw: "int_rows win = map (\<lambda>x. Num (of_int x)) row0 # int_rows rest"
      by (simp add: win int_rows_def)
    have tk: "take r (drop k (int_rows rows)) = map (\<lambda>x. Num (of_int x)) row0 # int_rows rest"
      by (simp only: int_rows_window win_def [symmetric] iw)
    have IH: "downsample_loop (int_rows rows) (Finite (int r)) (Finite (int (k + r)))
                (res @ [map (\<lambda>x. Num (of_int x)) (spec_row w win)])
        = Inr ((res @ [map (\<lambda>x. Num (of_int x)) (spec_row w win)])
               @ int_rows (map (spec_row w) (windows r (drop (k + r) rows))))"
      using True r by (intro less) simp
    have un: "windows r (drop k rows) = win # windows r (drop (k + r) rows)"
      using windows_unfold [OF r True] by (simp add: win_def)
    have "downsample_loop (int_rows rows) (Finite (int r)) (Finite (int k)) res
        = downsample_loop (int_rows rows) (Finite (int r)) (Finite (int (k + r)))
            (res @ [map (col_avg (map (\<lambda>x. Num (of_int x)) row0 # int_rows rest))
                      [0..<length (map (\<lambda>x. Num (of_int x)) row0)]])"
      using True by (intro loop_step tk) simp
    also have "\<dots> = downsample_loop (int_rows rows) (Finite (int r)) (Finite (int (k + r)))
            (res @ [map (\<lambda>x. Num (of_int x)) (spec_row w win)])"
      using avg l0 by (simp add: iw)
    finally have st: "downsample_loop (int_rows rows) (Finite (int r)) (Finite (int k)) res
        = downsample_loop (int_rows rows) (Finite (int r)) (Finite (int (k + r)))
            (res @ [map (\<lambda>x. Num (of_int x)) (spec_row w win)])" .
    show ?thesis
      by (simp only: st IH un) (simp add: int_rows_def)
  qed
qed

lemma loop3_spec:
  assumes r: "0 < r" and w: "\<forall>row\<in>set rows. length row = 3"
    and bnd: "\<forall>row\<in>set rows. \<forall>x\<in>set row. \<bar>x\<bar> \<le> b"
    and b1: "1 \<le> b" and bl: "b * int (length rows) < 2 ^ 52"
  shows "downsample3_loop (int_rows rows) (Finite (int r)) (Finite (int k)) res
         = Some (res @ int_rows (map (spec_row 3) (windows r (drop k rows))))"
proof (induction "length rows - k" arbitrary: k res rule: less_induct)
  case less
  show ?case
  proof (cases "k < length rows")
    case False
    then show ?thesis
      by (simp add: loop3_stop windows_done int_rows_def)
  next
    case True
    define win where "win = take r (drop k rows)"
    from True r have ne: "win \<noteq> []" by (simp add: win_def)
    have sub: "set win \<subseteq> set rows"
      unfolding win_def by (meson set_take_subset set_drop_subset subset_trans)
    with w have ww: "\<forall>row\<in>set win. length row = 3" by auto
    have wb: "\<forall>row\<in>set win. \<forall>x\<in>set row. \<bar>x\<bar> \<le> b" "b * int (length win) < 2 ^ 52"
      using window_bounds [OF bnd b1 bl, of r k] by (simp_all add: win_def)
    have IH: "downsample3_loop (int_rows rows) (Finite (int r)) (Finite (int (k + r)))
                (res @ [map (\<lambda>x. Num (of_int x)) (spec_row 3 win)])
        = Some ((res @ [map (\<lambda>x. Num (of_int x)) (spec_row 3 win)])
                @ int_rows (map (spec_row 3) (windows r (drop (k + r) rows))))"
      using True r by (intro less) simp
    have un: "windows r (drop k rows) = win # windows r (drop (k + r) rows)"
      using windows_unfold [OF r True] by (simp add: win_def)
    have "map (col_avg (int_rows win)) [0..<3] = map (\<lambda>x. Num (of_int x)) (spec_row 3 win)"
      using ne ww wb(1) b1 wb(2) by (rule row_avg_spec)
    moreover have "[0..<3] = [0, 1, 2]" by (simp add: upt_rec)
    ultimately have avg: "[col_avg (int_rows win) 0, col_avg (int_rows win) 1, col_avg (int_rows win) 2]
        = map (\<lambda>x. Num (of_int x)) (spec_row 3 win)" by simp
    have "downsample3_loop (int_rows rows) (Finite (int r)) (Finite (int k)) res
        = downsample3_loop (int_rows rows) (Finite (int r)) (Finite (int (k + r)))
            (res @ [[col_avg (int_rows win) 0, col_avg (int_rows win) 1, col_avg (int_rows win) 2]])"
      using True loop3_step [of k "int_rows rows" r res]
      by (simp only: int_rows_window win_def [symmetric] length_int_rows)
    also have "\<dots> = downsample3_loop (int_rows rows) (Finite (int r)) (Finite (int (k + r)))
            (res @ [map (\<lambda>x. Num (of_int x)) (spec_row 3 win)])"
      by (simp only: avg)
    finally have st: "downsample3_loop (int_rows rows) (Finite (int r)) (Finite (int k)) res
        = downsample3_loop (int_rows rows) (Finite (int r)) (Finite (int (k + r)))
            (res @ [map (\<lambda>x. Num (of_int x)) (spec_row 3 win)])" .
    show ?thesis
      by (simp only: st IH un) (simp add: int_rows_def)
  qed
qed

lemma loop_length:
  assumes r: "0 < r"
  shows "\<exists>out. downsample_loop data (Finite (int r)) (Finite (int k)) res = Inr out
           \<and> length out = length res + (length data - k + r - 1) div r"
proof (induction "length data - k" arbitrary: k res rule: less_induct)
  case less
  show ?case
  proof (cases "k < length data")
    case False
    with r show ?thesis
      by (simp add: loop_stop)
  next
    case True
    with r have "take r (drop k data) \<noteq> []" by simp
    then obtain row0 rest where ch: "take r (drop k data) = row0 # rest"
      by (cases "take r (drop k data)") auto
    have "length data - (k + r) < length data - k" using True r by simp
    from less [OF this, of "res @ [map (col_avg (row0 # rest)) [0..<length row0]]"]
    obtain out where out: "downsample_loop data (Finite (int r)) (Finite (int (k + r)))
          (res @ [map (col_avg (row0 # rest)) [0..<length row0]]) = Inr out"
        "length out = Suc (length res) + (length data - (k + r) + r - 1) div r"
      by auto
    have "Suc ((length data - k - r + r - 1) div r) = (length data - k + r - 1) div r"
      using r True by (intro ceil_step) simp_all
    then have "length out = length res + (length data - k + r - 1) div r"
      using out(2) by (simp add: diff_diff_left)
    moreover have "downsample_loop data (Finite (int r)) (Finite (int k)) res = Inr out"
      using out(1) by (simp only: loop_step [OF True ch])
    ultimately show ?thesis by blast
  qed
qed

lemma loop3_length:
  assumes r: "0 < r"
  shows "\<exists>out. downsample3_loop data (Finite (int r)) (Finite (int k)) res = Some out
           \<and> length out = length res + (length data - k + r - 1) div r"
proof (induction "length data - k" arbitrary: k res rule: less_induct)
  case less
  show ?case
  proof (cases "k < length data")
    case False
    with r show ?thesis
      by (simp add: loop3_stop)
  next
    case True
    define row where "row = [col_avg (take r (drop k data)) 0, col_avg (take r (drop k data)) 1,
                             col_avg (take r (drop k data)) 2]"
    have "length data - (k + r) < length data - k" using True r by simp
    from less [OF this, of "res @ [row]"]
    obtain out where out: "downsample3_loop data (Finite (int r)) (Finite (int (k + r))) (res @ [row]) = Some out"
        "length out = Suc (length res) + (length data - (k + r) + r - 1) div r"
      by auto
    have "Suc ((length data - k - r + r - 1) div r) = (length data - k + r - 1) div r"
      using r True by (intro ceil_step) simp_all
    then have "length out = length res + (length data - k + r - 1) div r"
      using out(2) by (simp add: diff_diff_left)
    moreover have "downsample3_loop data (Finite (int r)) (Finite (int k)) res = Some out"
      using out(1) by (simp only: loop3_step [OF True] row_def)
    ultimately show ?thesis by blast
  qed
qed

lemma loop_infinity:
  assumes "data \<noteq> []"
  shows "downsample_loop data Infinite (Finite 0) [] = Inr [map (col_avg data) [0..<length (hd data)]]"
proof -
  from assms obtain row0 rest where d: "data = row0 # rest" by (cases data) auto
  have "downsample_loop data Infinite (Finite 0) []
        = downsample_loop data Infinite Infinite [map (col_avg data) [0..<length row0]]"
    by (subst downsample_loop.simps) (simp add: d js_slice_def)
  also have "\<dots> = Inr [map (col_avg data) [0..<length row0]]"
    by (subst downsample_loop.simps) simp
  finally show ?thesis by (simp add: d)
qed

lemma loop3_infinity:
  assumes "data \<noteq> []"
  shows "downsample3_loop data Infinite (Finite 0) [] = Some [[col_avg data 0, col_avg data 1, col_avg data 2]]"
proof -
  have "downsample3_loop data Infinite (Finite 0) []
        = downsample3_loop data Infinite Infinite [[col_avg data 0, col_avg data 1, col_avg data 2]]"
    using assms by (subst downsample3_loop.simps) (simp add: js_slice_def Let_def)
  also have "\<dots> = Some [[col_avg data 0, col_avg data 1, col_avg data 2]]"
    by (subst downsample3_loop.simps) simp
  finally show ?thesis .
qed

lemma concat_windows: "0 < r \<Longrightarrow> concat (windows r xs) = xs"
proof (induction r xs rule: windows.induct)
  case (1 w xs)
  then show ?case
    by (subst windows.simps) simp
qed

lemma windows_sizes:
  "0 < r \<Longrightarrow> win \<in> set (windows r xs) \<Longrightarrow> win \<noteq> [] \<and> length win \<le> r"
proof (induction r xs rule: windows.induct)
  case (1 w xs)
  from 1(3) have "xs \<noteq> []" by (subst (asm) windows.simps) (auto split: if_splits)
  with 1(2,3) have "win = take w xs \<or> win \<in> set (windows w (drop w xs))"
    by (subst (asm) windows.simps) auto
  with 1 \<open>xs \<noteq> []\<close> show ?case by auto
qed

lemma windows_full:
  "0 < r \<Longrightarrow> win \<in> set (butlast (windows r xs)) \<Longrightarrow> length win = r"
proof (induction r xs rule: windows.induct)
  case (1 w xs)
  from 1(3) have ne: "xs \<noteq> []" by (subst (asm) windows.simps) (auto split: if_splits)
  show ?case
  proof (cases "windows w (drop w xs) = []")
    case True
    with 1(2,3) ne show ?thesis by (subst (asm) windows.simps) simp
  next
    case False
    then have "drop w xs \<noteq> []" by auto
    then have len: "w < length xs" by simp
    from 1(2,3) ne False have "win = take w xs \<or> win \<in> set (butlast (windows w (drop w xs)))"
      by (subst (asm) windows.simps) auto
    with 1 ne len show ?thesis by auto
  qed
qed


lemma downsample_negative_target:
  assumes t: "t < 0" and ne: "data \<noteq> []"
  shows "downsample data t = Inl TypeError"
proof -
  define n where "n = int (length data)"
  define r where "r = \<lceil>(of_nat (length data) :: rat) / of_int t\<rceil>"
  have n0: "0 < n" using ne by (simp add: n_def)
  have T: "(of_int t :: rat) < 0" using t by simp
  have "(of_nat (length data) :: rat) / of_int t \<le> 0"
    using T by (simp add: divide_nonneg_neg divide_le_0_iff)
  then have r0: "r \<le> 0" unfolding r_def by (simp add: ceiling_le_iff)
  have "(of_int t :: rat) \<le> - 1"
  proof -
    from t have "t \<le> - 1" by simp
    then have "(of_int t :: rat) \<le> of_int (- 1)" by (simp only: of_int_le_iff)
    then show ?thesis by simp
  qed
  then have "(of_nat (length data) :: rat) \<le> - of_int n * of_int t"
    using mult_left_mono_neg [of "of_int t" "- 1" "- of_int n :: rat"] n0
    by (simp add: n_def)
  then have "- of_int n \<le> (of_nat (length data) :: rat) / of_int t"
    using T by (simp add: neg_le_divide_eq mult.commute)
  then have "of_int (- n) \<le> (of_nat (length data) :: rat) / of_int t" by simp
  then have rn: "- n \<le> r" unfolding r_def by (simp only: le_ceiling_iff)
  have d: "downsample data t = downsample_loop data (Finite r) (Finite 0) []"
    using t ne by (simp add: downsample_def math_ceil_div_def r_def)
  show ?thesis
  proof (cases "js_slice 0 (index_min (index_add (Finite 0) (Finite r)) (length data)) data")
    case Nil
    then show ?thesis
      unfolding d using n0 by (subst downsample_loop.simps) (simp add: n_def)
  next
    case (Cons row0 rest)
    have rneg: "r < 0"
    proof (rule ccontr)
      assume "\<not> r < 0"
      with r0 have "r = 0" by simp
      with Cons show False by (simp add: js_slice_def)
    qed
    have second: "js_slice r (index_min (index_add (Finite r) (Finite r)) (length data)) data = []"
      using rneg rn by (simp add: js_slice_def Let_def n_def min_def max_def)
    have "downsample_loop data (Finite r) (Finite 0) []
          = downsample_loop data (Finite r) (Finite r) [map (col_avg (row0 # rest)) [0..<length row0]]"
      using n0 Cons by (subst downsample_loop.simps) (simp add: n_def)
    also have "\<dots> = Inl TypeError"
      using rneg n0 second by (subst downsample_loop.simps) (simp add: n_def)
    finally show ?thesis by (simp only: d)
  qed
qed

lemma loop3_never_returns:
  assumes "downsample3_loop data ratio i result = Some y"
  shows "\<forall>k r. i = Finite k \<longrightarrow> ratio = Finite r \<longrightarrow> r \<le> 0 \<longrightarrow> k \<le> 0 \<longrightarrow> data = []"
proof (rule downsample3_loop.raw_induct
    [where P = "\<lambda>data ratio i result y.
                  \<forall>k r. i = Finite k \<longrightarrow> ratio = Finite r \<longrightarrow> r \<le> 0 \<longrightarrow> k \<le> 0 \<longrightarrow> data = []",
     rotated, OF assms])
  fix f :: "series \<Rightarrow> js_index \<Rightarrow> js_index \<Rightarrow> series \<Rightarrow> series option"
    and d :: series and ratio' i' :: js_index and res y' :: series
  assume IH: "\<And>d' ratio'' i'' res' y''. f d' ratio'' i'' res' = Some y''
      \<Longrightarrow> \<forall>k r. i'' = Finite k \<longrightarrow> ratio'' = Finite r \<longrightarrow> r \<le> 0 \<longrightarrow> k \<le> 0 \<longrightarrow> d' = []"
    and body: "(case i' of
        Finite k \<Rightarrow>
          if k < int (length d)
          then let chunk = js_slice k (index_min (index_add i' ratio') (length d)) d
               in f d ratio' (index_add i' ratio')
                    (res @ [[col_avg chunk 0, col_avg chunk 1, col_avg chunk 2]])
          else Some res
      | Infinite \<Rightarrow> Some res) = Some y'"
  show "\<forall>k r. i' = Finite k \<longrightarrow> ratio' = Finite r \<longrightarrow> r \<le> 0 \<longrightarrow> k \<le> 0 \<longrightarrow> d = []"
  proof (intro allI impI)
    fix k r
    assume kr: "i' = Finite k" "ratio' = Finite r" "r \<le> 0" "k \<le> 0"
    show "d = []"
    proof (rule ccontr)
      assume ne: "d \<noteq> []"
      with kr(4) have lt: "k < int (length d)" by (cases d) simp_all
      from body kr lt obtain res' where "f d (Finite r) (Finite (k + r)) res' = Some y'"
        by (simp add: Let_def)
      from IH [OF this] kr ne show False by simp
    qed
  qed
qed

lemma downsample3_negative_target:
  assumes t: "t < 0" and ne: "data \<noteq> []"
  shows "downsample3 data t = None"
proof (rule ccontr)
  assume "downsample3 data t \<noteq> None"
  then obtain y where y: "downsample3 data t = Some y" by auto
  define r where "r = \<lceil>(of_nat (length data) :: rat) / of_int t\<rceil>"
  have "(of_nat (length data) :: rat) / of_int t \<le> 0"
    using t by (simp add: divide_le_0_iff)
  then have r0: "r \<le> 0" unfolding r_def by (simp add: ceiling_le_iff)
  from y t ne have "downsample3_loop data (Finite r) (Finite 0) [] = Some y"
    by (simp add: downsample3_def math_ceil_div_def r_def split: if_splits)
  from loop3_never_returns [OF this] r0 ne show False by simp
qed

text \<open>
  Claim C2 (windowed-mean downsampling), as stated, fails on the code in two ways.
  The mean is a quotient of doubles: for the rows
  \<open>[[7500000000000001, 0, 0], [0, 0, 0], [0, 0, 0]]\<close> and the target 1 both versions
  return 2500000000000001 in column 0, where the rounded mean is 2500000000000000; and
  for the rows \<open>[[1 - 2^-53], [2]]\<close> the sum is rounded to 3 and the result is 2, where
  the mean is below 1.5 and rounds to 1.
  And a target count may be negative: the generic version then throws a \<open>TypeError\<close>
  (lemma \<open>downsample_negative_target\<close>; the three-column version does not return,
  lemma \<open>downsample3_negative_target\<close>).
\<close>

theorem downsample_windowed_mean_counterexample:
  "downsample (int_rows [[7500000000000001, 0, 0], [0, 0, 0], [0, 0, 0]]) 1
     = Inr (int_rows [[2500000000000001, 0, 0]])
   \<and> downsample3 (int_rows [[7500000000000001, 0, 0], [0, 0, 0], [0, 0, 0]]) 1
     = Some (int_rows [[2500000000000001, 0, 0]])
   \<and> spec_downsample 3 [[7500000000000001, 0, 0], [0, 0, 0], [0, 0, 0]] 1
     = [[2500000000000000, 0, 0]]
   \<and> downsample [[Num (1 - 1 / 2 ^ 53)], [Num 2]] 1 = Inr [[Num 2]]
   \<and> spec_round ((1 - 1 / 2 ^ 53 + 2) / 2) = 1
   \<and> downsample (int_rows [[0, 10], [1, 20]]) (- 1) = Inl TypeError"
proof -
  define data where "data = int_rows [[7500000000000001, 0, 0], [0, 0, 0], [0, 0, 0]]"
  have avg: "col_avg data 0 = Num 2500000000000001" "col_avg data 1 = Num 0" "col_avg data 2 = Num 0"
    unfolding data_def by code_simp+
  from avg(2) have avg1: "col_avg data (Suc 0) = Num 0" by simp
  have len: "length data = 3" by (simp add: data_def)
  have stop: "downsample3_loop data (Finite 3) (Finite 3) res = Some res" for res
    using loop3_stop [of data 3 "Finite 3" res] by (simp add: len)
  have "downsample3_loop data (Finite 3) (Finite 0) []
        = downsample3_loop data (Finite 3) (Finite 3) [[col_avg data 0, col_avg data (Suc 0), col_avg data 2]]"
    using loop3_step [of 0 data 3 "[]"] by (simp add: len)
  then have l3: "downsample3_loop data (Finite 3) (Finite 0) [] = Some [[Num 2500000000000001, Num 0, Num 0]]"
    by (simp only: avg avg1 stop)
  have mc: "math_ceil_div 3 1 = Finite 3" by (simp add: math_ceil_div_def)
  have A: "downsample data 1 = Inr (int_rows [[2500000000000001, 0, 0]])"
    unfolding data_def by code_simp
  have B: "downsample3 data 1 = Some (int_rows [[2500000000000001, 0, 0]])"
    by (simp add: downsample3_def len mc l3 int_rows_def)
  have C: "spec_downsample 3 [[7500000000000001, 0, 0], [0, 0, 0], [0, 0, 0]] 1
     = [[2500000000000000, 0, 0]]"
    by code_simp
  have D: "downsample (int_rows [[0, 10], [1, 20]]) (- 1) = Inl TypeError"
    by (rule downsample_negative_target) (simp_all add: int_rows_def)
  have E: "downsample [[Num (1 - 1 / 2 ^ 53)], [Num 2]] 1 = Inr [[Num 2]]"
    by code_simp
  have F: "spec_round ((1 - 1 / 2 ^ 53 + 2) / 2) = 1"
    by code_simp
  from A B C D E F show ?thesis by (simp only: data_def)
qed

text \<open>
  Claim C2, amended. For rows of equal width \<open>w\<close> holding integers of absolute value at
  most \<open>b\<close>, where \<open>b\<close> times the number of rows is below \<open>2 ^ 52\<close>, and a target count
  that is not negative and below the number of rows, \<open>downsample\<close> returns exactly the
  rows the specification describes: the rows are cut into consecutive windows whose
  concatenation is the input, every window but the last has the window size
  \<open>ceil (length rows / t)\<close> and the last is non-empty and no longer, and each window
  yields one row of rounded column means, column 0 included. The three-column version
  agrees on rows of width 3. On the example of the specification the result is
  \<open>[[1, 15], [3, 35]]\<close>.
\<close>

theorem downsample_windowed_mean_bounded:
  assumes "t < length rows" and "\<forall>row\<in>set rows. length row = w"
    and "\<forall>row\<in>set rows. \<forall>x\<in>set row. \<bar>x\<bar> \<le> b" and "1 \<le> b"
    and "b * int (length rows) < 2 ^ 52"
  shows "downsample (int_rows rows) (int t) = Inr (int_rows (spec_downsample w rows t))
       \<and> (w = 3 \<longrightarrow> downsample3 (int_rows rows) (int t) = Some (int_rows (spec_downsample w rows t)))
       \<and> concat (spec_windows (spec_window_size (length rows) t) rows) = rows
       \<and> (\<forall>win\<in>set (spec_windows (spec_window_size (length rows) t) rows).
             win \<noteq> [] \<and> enat (length win) \<le> spec_window_size (length rows) t)
       \<and> (\<forall>win\<in>set (butlast (spec_windows (spec_window_size (length rows) t) rows)).
             enat (length win) = spec_window_size (length rows) t)
       \<and> downsample (int_rows [[0, 10], [1, 20], [2, 30], [3, 40]]) 2
           = Inr (int_rows [[1, 15], [3, 35]])"
proof (cases "t = 0")
  case True
  from assms(1) obtain row0 rest where d: "rows = row0 # rest" by (cases rows) auto
  with assms(2) have l0: "length row0 = w" by simp
  have avg: "map (col_avg (int_rows rows)) [0..<w] = map (\<lambda>x. Num (of_int x)) (spec_row w rows)"
    using assms(2,3,4,5) d by (intro row_avg_spec) simp_all
  have hd: "length (hd (int_rows rows)) = w" using l0 by (simp add: d int_rows_def)
  have ne: "int_rows rows \<noteq> []" by (simp add: d int_rows_def)
  have sd: "int_rows (spec_downsample w rows 0) = [map (\<lambda>x. Num (of_int x)) (spec_row w rows)]"
    by (simp add: spec_downsample_def spec_window_size_def spec_windows_def d int_rows_def)
  have A: "downsample (int_rows rows) (int t) = Inr (int_rows (spec_downsample w rows t))"
    using True assms(1) by (simp add: downsample_def math_ceil_div_def loop_infinity [OF ne] hd avg sd)
  have B: "w = 3 \<longrightarrow> downsample3 (int_rows rows) (int t) = Some (int_rows (spec_downsample w rows t))"
  proof
    assume w3: "w = 3"
    have "[0..<3] = [0, 1, 2]" by (simp add: upt_rec)
    with avg w3 have "[col_avg (int_rows rows) 0, col_avg (int_rows rows) 1,
        col_avg (int_rows rows) 2] = map (\<lambda>x. Num (of_int x)) (spec_row 3 rows)" by simp
    moreover have "int_rows (spec_downsample 3 rows 0) = [map (\<lambda>x. Num (of_int x)) (spec_row 3 rows)]"
      using sd w3 by simp
    ultimately show "downsample3 (int_rows rows) (int t) = Some (int_rows (spec_downsample w rows t))"
      using True assms(1) w3 by (simp add: downsample3_def math_ceil_div_def loop3_infinity [OF ne])
  qed
  have C: "downsample (int_rows [[0, 10], [1, 20], [2, 30], [3, 40]]) 2
           = Inr (int_rows [[1, 15], [3, 35]])"
    by code_simp
  from A B C True d show ?thesis
    by (simp add: spec_window_size_def spec_windows_def)
next
  case False
  define r where "r = (length rows + t - 1) div t"
  have cd: "\<lceil>(of_nat (length rows) :: rat) / of_nat t\<rceil> = int r"
    using False by (simp add: r_def ceil_div_nat)
  have "length rows \<le> r * t"
    using ceil_mult_bounds(1) [of t "length rows"] False by (simp add: r_def)
  with assms(1) have rpos: "0 < r" by (cases r) simp_all
  have ws: "spec_window_size (length rows) t = enat r"
    using False by (simp add: spec_window_size_def cd)
  have mc: "math_ceil_div (length rows) (int t) = Finite (int r)"
    using False by (simp add: math_ceil_div_pos r_def)
  have A: "downsample (int_rows rows) (int t) = Inr (int_rows (spec_downsample w rows t))"
    using assms(1) loop_spec [OF rpos assms(2,3,4,5), of 0 "[]"]
    by (simp add: downsample_def mc ws spec_downsample_def spec_windows_def)
  have B: "w = 3 \<longrightarrow> downsample3 (int_rows rows) (int t) = Some (int_rows (spec_downsample w rows t))"
  proof
    assume w3: "w = 3"
    with assms(2) have "\<forall>row\<in>set rows. length row = 3" by simp
    from loop3_spec [OF rpos this assms(3,4,5), of 0 "[]"] assms(1) w3
    show "downsample3 (int_rows rows) (int t) = Some (int_rows (spec_downsample w rows t))"
      by (simp add: downsample3_def mc ws spec_downsample_def spec_windows_def)
  qed
  have C: "downsample (int_rows [[0, 10], [1, 20], [2, 30], [3, 40]]) 2
           = Inr (int_rows [[1, 15], [3, 35]])"
    by code_simp
  have D: "concat (spec_windows (spec_window_size (length rows) t) rows) = rows"
    using rpos by (simp add: ws spec_windows_def concat_windows)
  have E: "\<forall>win\<in>set (spec_windows (spec_window_size (length rows) t) rows).
             win \<noteq> [] \<and> enat (length win) \<le> spec_window_size (length rows) t"
    using rpos windows_sizes [of r _ rows] by (simp add: ws spec_windows_def)
  have F: "\<forall>win\<in>set (butlast (spec_windows (spec_window_size (length rows) t) rows)).
             enat (length win) = spec_window_size (length rows) t"
    using rpos windows_full [of r _ rows] by (simp add: ws spec_windows_def)
  from A B C D E F show ?thesis by blast
qed

text \<open>
  Claim C3 (identity law). When the series has at most \<open>t\<close> rows both versions return
  the very array they were given; that branch builds nothing and writes nothing.
\<close>

theorem downsample_identity:
  "int (length data) \<le> t \<Longrightarrow> downsample data t = Inr data \<and> downsample3 data t = Some data"
  by (simp add: downsample_def downsample3_def)

text \<open>
  Claim C4 (length bound). For a positive target count below the number of rows, and
  rows of any shape, both versions return \<open>ceil (n / ws)\<close> rows where
  \<open>ws = ceil (n / t)\<close> and \<open>n\<close> is the number of input rows, and that is at most \<open>t\<close>.
\<close>

theorem downsample_length_bound:
  assumes "0 < t" and "t < int (length data)"
  shows "\<exists>ws out out3.
           math_ceil_div (length data) t = Finite (int ws)
         \<and> downsample data t = Inr out
         \<and> Finite (int (length out)) = math_ceil_div (length data) (int ws)
         \<and> int (length out) \<le> t
         \<and> downsample3 data t = Some out3
         \<and> Finite (int (length out3)) = math_ceil_div (length data) (int ws)
         \<and> int (length out3) \<le> t"
proof -
  define tn where "tn = nat t"
  have t: "t = int tn" and tn: "0 < tn" "tn < length data"
    using assms by (simp_all add: tn_def)
  define ws where "ws = (length data + tn - 1) div tn"
  have mc: "math_ceil_div (length data) t = Finite (int ws)"
    using tn(1) by (simp add: t math_ceil_div_pos ws_def)
  have "length data \<le> ws * tn"
    using ceil_mult_bounds(1) [OF tn(1), of "length data"] by (simp add: ws_def)
  with tn have wpos: "0 < ws" by (cases ws) simp_all
  then have mc2: "math_ceil_div (length data) (int ws) = Finite (int ((length data + ws - 1) div ws))"
    by (rule math_ceil_div_pos)
  have bound: "(length data + ws - 1) div ws \<le> tn"
    using out_bound [OF tn] by (simp add: ws_def)
  from loop_length [OF wpos, of data 0 "[]"] obtain out where
    out: "downsample_loop data (Finite (int ws)) (Finite 0) [] = Inr out"
      "length out = (length data + ws - 1) div ws"
    by auto
  from loop3_length [OF wpos, of data 0 "[]"] obtain out3 where
    out3: "downsample3_loop data (Finite (int ws)) (Finite 0) [] = Some out3"
      "length out3 = (length data + ws - 1) div ws"
    by auto
  have "downsample data t = Inr out" "downsample3 data t = Some out3"
    using assms(2) out(1) out3(1) by (simp_all add: downsample_def downsample3_def mc)
  with mc mc2 out(2) out3(2) bound t show ?thesis by auto
qed

theorem downsample_windowed_mean_bounded_witness:
  "(2::nat) < length [[0, 10, 1], [1, 20, 2], [2, 30, 3], [3, 40, 4], [4, 50, 6 :: int]]
   \<and> map length [[0, 10, 1], [1, 20, 2], [2, 30, 3], [3, 40, 4], [4, 50, 6 :: int]] = [3, 3, 3, 3, 3]
   \<and> list_all (list_all (\<lambda>x. \<bar>x\<bar> \<le> 50)) [[0, 10, 1], [1, 20, 2], [2, 30, 3], [3, 40, 4], [4, 50, 6 :: int]]
   \<and> (1::int) \<le> 50
   \<and> 50 * int (length [[0, 10, 1], [1, 20, 2], [2, 30, 3], [3, 40, 4], [4, 50, 6 :: int]]) < 2 ^ 52
   \<and> downsample (int_rows [[0, 10, 1], [1, 20, 2], [2, 30, 3], [3, 40, 4], [4, 50, 6]]) 2
       = Inr (int_rows [[1, 20, 2], [4, 45, 5]])
   \<and> downsample3 (int_rows [[0, 10, 1], [1, 20, 2], [2, 30, 3], [3, 40, 4], [4, 50, 6]]) 2
       = Some (int_rows [[1, 20, 2], [4, 45, 5]])"
proof -
  have sd: "spec_downsample 3 [[0, 10, 1], [1, 20, 2], [2, 30, 3], [3, 40, 4], [4, 50, 6]] 2
        = [[1, 20, 2], [4, 45, 5]]"
    by code_simp
  show ?thesis
    using downsample_windowed_mean_bounded
      [of 2 "[[0, 10, 1], [1, 20, 2], [2, 30, 3], [3, 40, 4], [4, 50, 6]]" 3 50]
    by (simp add: sd)
qed

theorem downsample_identity_witness:
  "int (length [[Num 0, Num 10], [Num 1, Num 20]]) \<le> 2
   \<and> downsample [[Num 0, Num 10], [Num 1, Num 20]] 2 = Inr [[Num 0, Num 10], [Num 1, Num 20]]
   \<and> downsample3 [[Num 0, Num 10], [Num 1, Num 20]] 2 = Some [[Num 0, Num 10], [Num 1, Num 20]]"
  using downsample_identity [of "[[Num 0, Num 10], [Num 1, Num 20]]" 2] by simp

theorem downsample_length_bound_witness:
  "(0::int) < 2 \<and> 2 < int (length [[Num 0], [Num 1], [Num 2], [Num 3], [Num 4]])
   \<and> (\<exists>ws out out3.
           math_ceil_div (length [[Num 0], [Num 1], [Num 2], [Num 3], [Num 4]]) 2 = Finite (int ws)
         \<and> downsample [[Num 0], [Num 1], [Num 2], [Num 3], [Num 4]] 2 = Inr out
         \<and> Finite (int (length out)) = math_ceil_div (length [[Num 0], [Num 1], [Num 2], [Num 3], [Num 4]]) (int ws)
         \<and> int (length out) \<le> 2
         \<and> downsample3 [[Num 0], [Num 1], [Num 2], [Num 3], [Num 4]] 2 = Some out3
         \<and> Finite (int (length out3)) = math_ceil_div (length [[Num 0], [Num 1], [Num 2], [Num 3], [Num 4]]) (int ws)
         \<and> int (length out3) \<le> 2)"
  using downsample_length_bound [of 2 "[[Num 0], [Num 1], [Num 2], [Num 3], [Num 4]]"] by simp

subsection \<open>The balance of requests and country counts\<close>

lemma sum_update:
  "sum_list (map snd (AList.update k v m)) + count_of k m = v + sum_list (map snd m)"
  by (induction m) (auto simp: count_of_def)

lemma sum_incr: "sum_list (map snd (incr k m)) = Suc (sum_list (map snd m))"
  using sum_update [of k "count_of k m + 1" m] by (simp add: incr_def)

lemma count_country_inv:
  assumes d: "distinct (map fst (minuteData s))"
    and b: "\<forall>k b. map_of (minuteData s) k = Some b \<longrightarrow>
         sum_list (map snd (countries b)) + length (filter (\<lambda>a. aw_minuteKey a = k) (suspended s))
           = (if k = key then requests b - 1 else requests b)"
    and p: "\<forall>k b. map_of (minuteData s) k = Some b \<longrightarrow> k = key \<longrightarrow> 0 < requests b"
    and a: "\<forall>a\<in>set (suspended s). map_of (minuteData s) (aw_minuteKey a) \<noteq> None"
    and e: "map_of (minuteData s) key \<noteq> None"
  shows "\<exists>s'. count_country key c s = Inr s' \<and> bucket_inv s'"
proof -
  from e obtain b0 where b0: "map_of (minuteData s) key = Some b0" by auto
  define s' where "s' = s\<lparr>minuteData := AList.update key (b0\<lparr>countries := incr (property_key c) (countries b0)\<rparr>) (minuteData s),
      countryTotals := incr (property_key c) (countryTotals s)\<rparr>"
  have r: "count_country key c s = Inr s'"
    by (simp add: count_country_def with_bucket_def b0 s'_def)
  have "bucket_inv s'"
    unfolding bucket_inv_def
  proof (intro conjI allI impI ballI)
    show "distinct (map fst (minuteData s'))"
      using d by (simp add: s'_def distinct_update)
  next
    fix k b assume m: "map_of (minuteData s') k = Some b"
    show "sum_list (map snd (countries b)) + length (filter (\<lambda>a. aw_minuteKey a = k) (suspended s')) = requests b"
    proof (cases "k = key")
      case True
      with m have "b = b0\<lparr>countries := incr (property_key c) (countries b0)\<rparr>"
        by (simp add: s'_def update_conv')
      moreover from b b0 have "sum_list (map snd (countries b0)) + length (filter (\<lambda>a. aw_minuteKey a = key) (suspended s)) = requests b0 - 1"
        by simp
      moreover from p b0 have "0 < requests b0" by simp
      ultimately show ?thesis using True by (simp add: sum_incr s'_def)
    next
      case False
      with m have "map_of (minuteData s) k = Some b" by (simp add: s'_def update_conv')
      with b False show ?thesis by (simp add: s'_def)
    qed
  next
    fix a assume "a \<in> set (suspended s')"
    with a show "map_of (minuteData s') (aw_minuteKey a) \<noteq> None"
      by (simp add: s'_def update_conv')
  qed
  with r show ?thesis by blast
qed


lemma bucket_inv_cong:
  "minuteData s' = minuteData s \<Longrightarrow> suspended s' = suspended s \<Longrightarrow> bucket_inv s' = bucket_inv s"
  unfolding bucket_inv_def by simp

lemma count_request_eq:
  "\<exists>b4. count_request l (init_minute (minuteKey l) s) =
      Inr (s\<lparr>minuteData := AList.update (minuteKey l) b4 (minuteData s),
             statusTotals := incr (status l) (statusTotals s)\<rparr>)
    \<and> countries b4 = (case map_of (minuteData s) (minuteKey l) of None \<Rightarrow> [] | Some b \<Rightarrow> countries b)
    \<and> requests b4 = (case map_of (minuteData s) (minuteKey l) of None \<Rightarrow> 0 | Some b \<Rightarrow> requests b) + 1"
proof (cases "map_of (minuteData s) (minuteKey l)")
  case None
  define b4 where "b4 = empty_bucket\<lparr>requests := requests empty_bucket + 1,
      bytes := (case size l of None \<Rightarrow> bytes empty_bucket | Some n \<Rightarrow> bytes empty_bucket + n),
      status_codes := incr (status l) (status_codes empty_bucket)\<rparr>"
  have "count_request l (init_minute (minuteKey l) s) =
      Inr (s\<lparr>minuteData := AList.update (minuteKey l) b4 (minuteData s),
             statusTotals := incr (status l) (statusTotals s)\<rparr>)"
    using None by (simp add: count_request_def init_minute_def with_bucket_def update_conv' b4_def)
  moreover have "countries b4 = []" "requests b4 = 1"
    by (simp_all add: b4_def empty_bucket_def)
  ultimately show ?thesis using None by auto
next
  case (Some b)
  define b4 where "b4 = b\<lparr>requests := requests b + 1,
      bytes := (case size l of None \<Rightarrow> bytes b | Some n \<Rightarrow> bytes b + n),
      status_codes := incr (status l) (status_codes b)\<rparr>"
  have "count_request l (init_minute (minuteKey l) s) =
      Inr (s\<lparr>minuteData := AList.update (minuteKey l) b4 (minuteData s),
             statusTotals := incr (status l) (statusTotals s)\<rparr>)"
    using Some by (simp add: count_request_def init_minute_def with_bucket_def b4_def)
  moreover have "countries b4 = countries b" "requests b4 = requests b + 1"
    by (simp_all add: b4_def)
  ultimately show ?thesis using Some by auto
qed

lemma line_handler_inv:
  assumes inv: "bucket_inv s"
  shows "\<exists>s'. line_handler geoip line s = Inr s' \<and> bucket_inv s'"
proof (cases line)
  case None
  have "bucket_inv (s\<lparr>totalLines := totalLines s + 1\<rparr>) = bucket_inv s"
    by (rule bucket_inv_cong) simp_all
  with inv have "bucket_inv (s\<lparr>totalLines := totalLines s + 1\<rparr>)" by simp
  with None show ?thesis by (simp add: line_handler_def)
next
  case (Some l)
  define K where "K = minuteKey l"
  define s2 where "s2 = s\<lparr>totalLines := totalLines s + 1, totalParsed := totalParsed s + 1\<rparr>"
  have "bucket_inv s2 = bucket_inv s"
    by (rule bucket_inv_cong) (simp_all add: s2_def)
  with inv have inv2: "bucket_inv s2" by simp
  then have d: "distinct (map fst (minuteData s2))"
    and bal: "\<And>k b. map_of (minuteData s2) k = Some b \<Longrightarrow>
         sum_list (map snd (countries b)) + length (filter (\<lambda>a. aw_minuteKey a = k) (suspended s2)) = requests b"
    and dom: "\<And>a. a \<in> set (suspended s2) \<Longrightarrow> map_of (minuteData s2) (aw_minuteKey a) \<noteq> None"
    unfolding bucket_inv_def by blast+
  from count_request_eq [of l s2] obtain b4 where
    cr: "count_request l (init_minute K s2) =
      Inr (s2\<lparr>minuteData := AList.update K b4 (minuteData s2),
             statusTotals := incr (status l) (statusTotals s2)\<rparr>)"
    and c4: "countries b4 = (case map_of (minuteData s2) K of None \<Rightarrow> [] | Some b \<Rightarrow> countries b)"
    and r4: "requests b4 = (case map_of (minuteData s2) K of None \<Rightarrow> 0 | Some b \<Rightarrow> requests b) + 1"
    unfolding K_def by blast
  define s5 where "s5 = s2\<lparr>minuteData := AList.update K b4 (minuteData s2),
             statusTotals := incr (status l) (statusTotals s2)\<rparr>"
  have none_pending: "map_of (minuteData s2) K = None \<Longrightarrow> filter (\<lambda>a. aw_minuteKey a = K) (suspended s2) = []"
  proof -
    assume n: "map_of (minuteData s2) K = None"
    have "\<forall>a\<in>set (suspended s2). aw_minuteKey a \<noteq> K"
    proof
      fix a assume "a \<in> set (suspended s2)"
      from dom [OF this] n show "aw_minuteKey a \<noteq> K" by auto
    qed
    then show ?thesis by (simp add: filter_empty_conv)
  qed
  have b4_bal: "sum_list (map snd (countries b4)) + length (filter (\<lambda>a. aw_minuteKey a = K) (suspended s2)) + 1 = requests b4"
  proof (cases "map_of (minuteData s2) K")
    case None
    with none_pending c4 r4 show ?thesis by simp
  next
    case (Some b)
    with bal [OF Some] c4 r4 show ?thesis by simp
  qed
  have lh: "line_handler geoip line s =
      (case cache_read (ipCache s5) (ip l) of
         None \<Rightarrow> Inr (await_lookup geoip l s5)
       | Some c \<Rightarrow> count_country K (Some c) s5)"
  proof -
    have e2: "s\<lparr>totalLines := totalLines s + 1, totalParsed := totalParsed s + 1\<rparr> = s2"
      by (simp add: s2_def)
    have cr': "count_request l (init_minute (minuteKey l) s2) = Inr s5"
      using cr by (simp add: K_def s5_def)
    show ?thesis
      by (simp only: line_handler_def Some option.case e2 cr' sum.case K_def)
  qed
  have m5: "map_of (minuteData s5) = (map_of (minuteData s2))(K \<mapsto> b4)"
    by (simp add: s5_def update_conv')
  have d5: "distinct (map fst (minuteData s5))"
    using d by (simp add: s5_def distinct_update)
  have su5: "suspended s5 = suspended s2" by (simp add: s5_def)
  show ?thesis
  proof (cases "cache_read (ipCache s5) (ip l)")
    case None
    define s6 where "s6 = await_lookup geoip l s5"
    have md6: "minuteData s6 = minuteData s5"
      and su6: "suspended s6 = suspended s2 @ [\<lparr>aw_ip = ip l, aw_minuteKey = K,
                   aw_outcome = geoip (length (lookups s5)) (ip l)\<rparr>]"
      by (simp_all add: s6_def await_lookup_def su5 K_def)
    have "bucket_inv s6"
      unfolding bucket_inv_def
    proof (intro conjI allI impI ballI)
      show "distinct (map fst (minuteData s6))" using d5 by (simp add: md6)
    next
      fix k b assume "map_of (minuteData s6) k = Some b"
      then have m: "((map_of (minuteData s2))(K \<mapsto> b4)) k = Some b"
        by (simp add: md6 m5)
      show "sum_list (map snd (countries b)) + length (filter (\<lambda>a. aw_minuteKey a = k) (suspended s6)) = requests b"
      proof (cases "k = K")
        case True
        with m have "b = b4" by simp
        with True b4_bal show ?thesis by (simp add: su6)
      next
        case False
        with m have "map_of (minuteData s2) k = Some b" by simp
        from bal [OF this] False show ?thesis by (simp add: su6)
      qed
    next
      fix a assume "a \<in> set (suspended s6)"
      then have "a \<in> set (suspended s2) \<or> aw_minuteKey a = K"
        by (auto simp: su6)
      then show "map_of (minuteData s6) (aw_minuteKey a) \<noteq> None"
      proof
        assume "a \<in> set (suspended s2)"
        from dom [OF this] show ?thesis by (simp add: md6 m5)
      next
        assume "aw_minuteKey a = K"
        then show ?thesis by (simp add: md6 m5)
      qed
    qed
    with None lh show ?thesis by (simp add: s6_def)
  next
    case (Some c)
    have "\<exists>s'. count_country K (Some c) s5 = Inr s' \<and> bucket_inv s'"
    proof (rule count_country_inv)
      show "distinct (map fst (minuteData s5))" by (rule d5)
      show "\<forall>k b. map_of (minuteData s5) k = Some b \<longrightarrow>
         sum_list (map snd (countries b)) + length (filter (\<lambda>a. aw_minuteKey a = k) (suspended s5))
           = (if k = K then requests b - 1 else requests b)"
      proof (intro allI impI)
        fix k b assume "map_of (minuteData s5) k = Some b"
        then have m: "((map_of (minuteData s2))(K \<mapsto> b4)) k = Some b" by (simp add: m5)
        show "sum_list (map snd (countries b)) + length (filter (\<lambda>a. aw_minuteKey a = k) (suspended s5))
           = (if k = K then requests b - 1 else requests b)"
        proof (cases "k = K")
          case True
          with m have "b = b4" by simp
          with True b4_bal show ?thesis by (simp add: su5)
        next
          case False
          with m have "map_of (minuteData s2) k = Some b" by simp
          from bal [OF this] False show ?thesis by (simp add: su5)
        qed
      qed
      show "\<forall>k b. map_of (minuteData s5) k = Some b \<longrightarrow> k = K \<longrightarrow> 0 < requests b"
        using r4 by (simp add: m5)
      show "\<forall>a\<in>set (suspended s5). map_of (minuteData s5) (aw_minuteKey a) \<noteq> None"
      proof
        fix a assume "a \<in> set (suspended s5)"
        then have "a \<in> set (suspended s2)" by (simp add: su5)
        from dom [OF this] show "map_of (minuteData s5) (aw_minuteKey a) \<noteq> None"
          by (simp add: m5)
      qed
      show "map_of (minuteData s5) K \<noteq> None" by (simp add: m5)
    qed
    with Some lh show ?thesis by simp
  qed
qed

lemma filter_remove_nth:
  assumes "j < length xs"
  shows "length (filter P xs) = length (filter P (take j xs @ drop (Suc j) xs)) + (if P (xs ! j) then 1 else 0)"
proof -
  have "xs = take j xs @ xs ! j # drop (Suc j) xs"
    using assms by (rule id_take_nth_drop)
  then have "filter P xs = filter P (take j xs @ xs ! j # drop (Suc j) xs)" by simp
  then show ?thesis by simp
qed

lemma resume_inv:
  assumes inv: "bucket_inv s" and j: "j < length (suspended s)"
  shows "\<exists>s'. line_handler_resume (suspended s ! j)
            (s\<lparr>suspended := take j (suspended s) @ drop (Suc j) (suspended s)\<rparr>) = Inr s'
          \<and> bucket_inv s'"
proof -
  define a where "a = suspended s ! j"
  define c where "c = resolved_country (aw_outcome a)"
  define s1 where "s1 = s\<lparr>suspended := take j (suspended s) @ drop (Suc j) (suspended s),
      ipCache := AList.update (aw_ip a) c (ipCache s)\<rparr>"
  from inv have d: "distinct (map fst (minuteData s))"
    and bal: "\<And>k b. map_of (minuteData s) k = Some b \<Longrightarrow>
         sum_list (map snd (countries b)) + length (filter (\<lambda>a. aw_minuteKey a = k) (suspended s)) = requests b"
    and dom: "\<And>a. a \<in> set (suspended s) \<Longrightarrow> map_of (minuteData s) (aw_minuteKey a) \<noteq> None"
    by (auto simp: bucket_inv_def)
  have ain: "a \<in> set (suspended s)" using j by (simp add: a_def)
  have rs: "line_handler_resume (suspended s ! j)
            (s\<lparr>suspended := take j (suspended s) @ drop (Suc j) (suspended s)\<rparr>)
        = count_country (aw_minuteKey a) c s1"
    by (simp add: line_handler_resume_def Let_def a_def [symmetric] c_def s1_def)
  have sub: "set (suspended s1) \<subseteq> set (suspended s)"
    by (auto simp: s1_def dest: in_set_takeD in_set_dropD)
  have cnt: "\<And>k. length (filter (\<lambda>a. aw_minuteKey a = k) (suspended s))
        = length (filter (\<lambda>a. aw_minuteKey a = k) (suspended s1)) + (if aw_minuteKey a = k then 1 else 0)"
    using filter_remove_nth [OF j] by (simp add: s1_def a_def)
  have "\<exists>s'. count_country (aw_minuteKey a) c s1 = Inr s' \<and> bucket_inv s'"
  proof (rule count_country_inv)
    show "distinct (map fst (minuteData s1))" using d by (simp add: s1_def)
    show "\<forall>k b. map_of (minuteData s1) k = Some b \<longrightarrow>
         sum_list (map snd (countries b)) + length (filter (\<lambda>a. aw_minuteKey a = k) (suspended s1))
           = (if k = aw_minuteKey a then requests b - 1 else requests b)"
    proof (intro allI impI)
      fix k b assume "map_of (minuteData s1) k = Some b"
      then have "map_of (minuteData s) k = Some b" by (simp add: s1_def)
      from bal [OF this] cnt [of k]
      show "sum_list (map snd (countries b)) + length (filter (\<lambda>a. aw_minuteKey a = k) (suspended s1))
           = (if k = aw_minuteKey a then requests b - 1 else requests b)"
        by (auto split: if_splits)
    qed
    show "\<forall>k b. map_of (minuteData s1) k = Some b \<longrightarrow> k = aw_minuteKey a \<longrightarrow> 0 < requests b"
    proof (intro allI impI)
      fix k b assume "map_of (minuteData s1) k = Some b" and k: "k = aw_minuteKey a"
      then have "map_of (minuteData s) k = Some b" by (simp add: s1_def)
      from bal [OF this] cnt [of k] k show "0 < requests b" by simp
    qed
    show "\<forall>a\<in>set (suspended s1). map_of (minuteData s1) (aw_minuteKey a) \<noteq> None"
      using sub dom by (auto simp: s1_def)
    show "map_of (minuteData s1) (aw_minuteKey a) \<noteq> None"
      using dom [OF ain] by (simp add: s1_def)
  qed
  with rs show ?thesis by simp
qed

lemma step_inv:
  assumes "bucket_inv s"
  shows "\<exists>s'. step geoip e s = Inr s' \<and> bucket_inv s'"
proof (cases e)
  case (Line l)
  with line_handler_inv [OF assms] show ?thesis by (simp add: step_def)
next
  case (Settle j)
  show ?thesis
  proof (cases "j < length (suspended s)")
    case True
    with resume_inv [OF assms True] Settle show ?thesis by (simp add: step_def)
  next
    case False
    with assms Settle show ?thesis by (simp add: step_def)
  qed
qed

lemma run_inv:
  "bucket_inv s \<Longrightarrow> \<exists>s'. run geoip es s = Inr s' \<and> bucket_inv s'"
proof (induction es arbitrary: s)
  case Nil
  then show ?case by simp
next
  case (Cons e es)
  from step_inv [OF Cons.prems] obtain s1 where s1: "step geoip e s = Inr s1" "bucket_inv s1"
    by blast
  from Cons.IH [OF s1(2)] s1(1) show ?case by simp
qed

lemma init_inv: "bucket_inv init_state"
  by (simp add: bucket_inv_def init_state_def)

lemma run_total: "\<exists>s. run geoip es init_state = Inr s \<and> bucket_inv s"
  using run_inv [OF init_inv] .

text \<open>
  Claim C1 (bucket-sum invariant). Whatever the order in which lines arrive and
  lookups settle, once no listener is suspended any more every minute has one bucket
  and in every bucket the country counts add up to the requests: a listener that
  counts a request counts exactly one country for it, at once on a cache hit and when
  its lookup settles otherwise.
\<close>

theorem bucket_sum_invariant:
  assumes "run geoip events init_state = Inr s" and "suspended s = []"
  shows "distinct (map fst (minuteData s))
       \<and> (\<forall>(k, b)\<in>set (minuteData s). sum_list (map snd (countries b)) = requests b)"
proof -
  from run_total [of geoip events] assms(1) have inv: "bucket_inv s" by auto
  then have d: "distinct (map fst (minuteData s))" by (simp add: bucket_inv_def)
  have "sum_list (map snd (countries b)) = requests b" if "(k, b) \<in> set (minuteData s)" for k b
  proof -
    from d that have "map_of (minuteData s) k = Some b" by simp
    with inv assms(2) show ?thesis by (auto simp: bucket_inv_def)
  qed
  with d show ?thesis by auto
qed

theorem bucket_sum_invariant_witness:
  "(case run example_lookup
           [Line (log_entry ''10.0.0.1'' ''2025-01-01T00:00:00''),
            Line (log_entry ''10.0.0.2'' ''2025-01-01T00:00:00''),
            Line (log_entry ''10.0.0.1'' ''2025-01-01T00:01:00''),
            Settle 2, Settle 0, Settle 0] init_state of
      Inl e \<Rightarrow> False
    | Inr s \<Rightarrow> suspended s = []
        \<and> map (\<lambda>(k, b). (k, sum_list (map snd (countries b)), requests b)) (minuteData s)
            = [(''2025-01-01T00:00:00'', 2, 2), (''2025-01-01T00:01:00'', 1, 1)])"
proof -
  obtain s where r: "run example_lookup
           [Line (log_entry ''10.0.0.1'' ''2025-01-01T00:00:00''),
            Line (log_entry ''10.0.0.2'' ''2025-01-01T00:00:00''),
            Line (log_entry ''10.0.0.1'' ''2025-01-01T00:01:00''),
            Settle 2, Settle 0, Settle 0] init_state = Inr s"
    using run_total by blast
  have c: "(case run example_lookup
           [Line (log_entry ''10.0.0.1'' ''2025-01-01T00:00:00''),
            Line (log_entry ''10.0.0.2'' ''2025-01-01T00:00:00''),
            Line (log_entry ''10.0.0.1'' ''2025-01-01T00:01:00''),
            Settle 2, Settle 0, Settle 0] init_state of
      Inl e \<Rightarrow> False
    | Inr s \<Rightarrow> suspended s = []
        \<and> map (\<lambda>(k, b). (k, sum_list (map snd (countries b)), requests b)) (minuteData s)
            = [(''2025-01-01T00:00:00'', 2, 2), (''2025-01-01T00:01:00'', 1, 1)])"
    by code_simp
  with r have q: "suspended s = []" by simp
  from bucket_sum_invariant [OF r q] c show ?thesis by simp
qed

subsection \<open>The cache\<close>

lemma count_of_incr: "count_of k' (incr k m) = (if k' = k then count_of k m + 1 else count_of k' m)"
  by (simp add: incr_def count_of_def update_conv')

lemma count_country_eq:
  assumes "map_of (minuteData s) key = Some b"
  shows "count_country key c s =
     Inr (s\<lparr>minuteData := AList.update key (b\<lparr>countries := incr (property_key c) (countries b)\<rparr>) (minuteData s),
            countryTotals := incr (property_key c) (countryTotals s)\<rparr>)"
  using assms by (simp add: count_country_def with_bucket_def)

lemma cache_hit_no_lookup:
  assumes "cache_read (ipCache s) (ip l) = Some c"
  shows "\<exists>s'. line_handler geoip (Some l) s = Inr s' \<and> lookups s' = lookups s"
proof -
  define s2 where "s2 = s\<lparr>totalLines := totalLines s + 1, totalParsed := totalParsed s + 1\<rparr>"
  from count_request_eq [of l s2] obtain b4 where
    cr: "count_request l (init_minute (minuteKey l) s2) =
      Inr (s2\<lparr>minuteData := AList.update (minuteKey l) b4 (minuteData s2),
             statusTotals := incr (status l) (statusTotals s2)\<rparr>)"
    by blast
  define s5 where "s5 = s2\<lparr>minuteData := AList.update (minuteKey l) b4 (minuteData s2),
             statusTotals := incr (status l) (statusTotals s2)\<rparr>"
  have e2: "s\<lparr>totalLines := totalLines s + 1, totalParsed := totalParsed s + 1\<rparr> = s2"
    by (simp add: s2_def)
  have cr': "count_request l (init_minute (minuteKey l) s2) = Inr s5"
    using cr by (simp add: s5_def)
  have hit: "cache_read (ipCache s5) (ip l) = Some c"
    using assms by (simp add: s5_def s2_def)
  have lh: "line_handler geoip (Some l) s = count_country (minuteKey l) (Some c) s5"
    by (simp only: line_handler_def option.case e2 cr' sum.case hit)
  have "map_of (minuteData s5) (minuteKey l) = Some b4"
    by (simp add: s5_def update_conv')
  from count_country_eq [OF this, of "Some c"] lh
  show ?thesis by (simp add: s5_def s2_def)
qed

text \<open>
  When every listener finishes before the next line is delivered, and every outcome of
  the capability yields a country (a rejection and an empty result yield \<open>Unknown\<close>), the
  run ends with nothing suspended and has called the capability at most once per
  address.
\<close>

lemma count_country_frame:
  "count_country key c s = Inr s' \<Longrightarrow>
     ipCache s' = ipCache s \<and> lookups s' = lookups s \<and> suspended s' = suspended s"
  by (auto simp: count_country_def with_bucket_def split: option.splits)

lemma cache_read_update:
  "cache_read (AList.update k c cache) i = (if i = k then c else cache_read cache i)"
  by (simp add: cache_read_def update_conv')

lemma line_handler_frame:
  assumes "line_handler geoip line s = Inr s'"
  shows "ipCache s' = ipCache s
       \<and> (case line of
            None \<Rightarrow> lookups s' = lookups s \<and> suspended s' = suspended s
          | Some l \<Rightarrow>
              (case cache_read (ipCache s) (ip l) of
                 Some c \<Rightarrow> lookups s' = lookups s \<and> suspended s' = suspended s
               | None \<Rightarrow> lookups s' = lookups s @ [ip l]
                   \<and> suspended s' = suspended s @
                        [\<lparr>aw_ip = ip l, aw_minuteKey = minuteKey l,
                          aw_outcome = geoip (length (lookups s)) (ip l)\<rparr>]))"
proof (cases line)
  case None
  with assms show ?thesis by (auto simp: line_handler_def)
next
  case (Some l)
  define s2 where "s2 = s\<lparr>totalLines := totalLines s + 1, totalParsed := totalParsed s + 1\<rparr>"
  from count_request_eq [of l s2] obtain b4 where
    cr: "count_request l (init_minute (minuteKey l) s2) =
      Inr (s2\<lparr>minuteData := AList.update (minuteKey l) b4 (minuteData s2),
             statusTotals := incr (status l) (statusTotals s2)\<rparr>)"
    by blast
  define s5 where "s5 = s2\<lparr>minuteData := AList.update (minuteKey l) b4 (minuteData s2),
             statusTotals := incr (status l) (statusTotals s2)\<rparr>"
  have e2: "s\<lparr>totalLines := totalLines s + 1, totalParsed := totalParsed s + 1\<rparr> = s2"
    by (simp add: s2_def)
  have cr': "count_request l (init_minute (minuteKey l) s2) = Inr s5"
    using cr by (simp add: s5_def)
  have f5: "ipCache s5 = ipCache s" "lookups s5 = lookups s" "suspended s5 = suspended s"
    by (simp_all add: s5_def s2_def)
  have lh: "line_handler geoip (Some l) s =
      (case cache_read (ipCache s5) (ip l) of
         None \<Rightarrow> Inr (await_lookup geoip l s5)
       | Some c \<Rightarrow> count_country (minuteKey l) (Some c) s5)"
    by (simp only: line_handler_def option.case e2 cr' sum.case)
  show ?thesis
  proof (cases "cache_read (ipCache s) (ip l)")
    case None
    with lh assms Some f5 have "s' = await_lookup geoip l s5" by simp
    with None Some f5 show ?thesis by (simp add: await_lookup_def)
  next
    case (Some c)
    with lh assms \<open>line = Some l\<close> f5 have "count_country (minuteKey l) (Some c) s5 = Inr s'" by simp
    from count_country_frame [OF this] Some \<open>line = Some l\<close> f5 show ?thesis by simp
  qed
qed

lemma resume_frame:
  assumes "line_handler_resume a s = Inr s'"
  shows "ipCache s' = AList.update (aw_ip a) (resolved_country (aw_outcome a)) (ipCache s)
       \<and> lookups s' = lookups s \<and> suspended s' = suspended s"
  using count_country_frame [of "aw_minuteKey a" "resolved_country (aw_outcome a)"
      "s\<lparr>ipCache := AList.update (aw_ip a) (resolved_country (aw_outcome a)) (ipCache s)\<rparr>" s'] assms
  by (simp add: line_handler_resume_def Let_def)

lemma run_append:
  "run geoip (es @ fs) s = (case run geoip es s of Inl e \<Rightarrow> Inl e | Inr s' \<Rightarrow> run geoip fs s')"
  by (induction es arbitrary: s) (auto split: sum.splits)

lemma one_line_at_a_time:
  assumes bi: "bucket_inv s" and ci: "cache_inv s"
    and good: "\<forall>n i. resolved_country (geoip n i) \<noteq> None"
  shows "\<exists>s'. run geoip [Line line, Settle 0] s = Inr s' \<and> bucket_inv s' \<and> cache_inv s'"
proof -
  from step_inv [OF bi, of geoip "Line line"] obtain s1 where
    s1: "line_handler geoip line s = Inr s1" and b1: "bucket_inv s1"
    by (auto simp: step_def)
  from step_inv [OF b1, of geoip "Settle 0"] obtain s2 where
    s2: "step geoip (Settle 0) s1 = Inr s2" and b2: "bucket_inv s2"
    by blast
  have r: "run geoip [Line line, Settle 0] s = Inr s2"
    using s1 s2 by (simp add: step_def)
  from ci have su: "suspended s = []" and di: "distinct (lookups s)"
    and ca: "\<forall>i\<in>set (lookups s). cache_read (ipCache s) i \<noteq> None"
    by (simp_all add: cache_inv_def)
  note fr = line_handler_frame [OF s1]
  have "cache_inv s2"
  proof (cases "\<exists>l. line = Some l \<and> cache_read (ipCache s) (ip l) = None")
    case False
    with fr su have f1: "ipCache s1 = ipCache s" "lookups s1 = lookups s" "suspended s1 = []"
      by (auto split: option.splits)
    with s2 have "s2 = s1" by (simp add: step_def)
    with f1 di ca show ?thesis by (simp add: cache_inv_def)
  next
    case True
    then obtain l where l: "line = Some l" "cache_read (ipCache s) (ip l) = None" by blast
    define a where "a = \<lparr>aw_ip = ip l, aw_minuteKey = minuteKey l,
                          aw_outcome = geoip (length (lookups s)) (ip l)\<rparr>"
    from fr l su have f1: "ipCache s1 = ipCache s" "lookups s1 = lookups s @ [ip l]"
        "suspended s1 = [a]"
      by (simp_all add: a_def)
    from s2 f1 have "line_handler_resume a (s1\<lparr>suspended := []\<rparr>) = Inr s2"
      by (simp add: step_def)
    from resume_frame [OF this] f1
    have f2: "ipCache s2 = AList.update (ip l) (resolved_country (geoip (length (lookups s)) (ip l))) (ipCache s)"
        "lookups s2 = lookups s @ [ip l]" "suspended s2 = []"
      by (simp_all add: a_def)
    from l(2) ca have new: "ip l \<notin> set (lookups s)" by auto
    have "\<forall>i\<in>set (lookups s2). cache_read (ipCache s2) i \<noteq> None"
      using ca good by (auto simp: f2 cache_read_update)
    with di new f2 show ?thesis by (simp add: cache_inv_def)
  qed
  with r b2 show ?thesis by blast
qed

lemma one_at_a_time_inv:
  assumes good: "\<forall>n i. resolved_country (geoip n i) \<noteq> None"
  shows "bucket_inv s \<Longrightarrow> cache_inv s \<Longrightarrow>
         \<exists>s'. run geoip (one_at_a_time ls) s = Inr s' \<and> bucket_inv s' \<and> cache_inv s'"
proof (induction ls arbitrary: s)
  case Nil
  then show ?case by (simp add: one_at_a_time_def)
next
  case (Cons l ls)
  from one_line_at_a_time [OF Cons.prems good, of l] obtain s1 where
    s1: "run geoip [Line l, Settle 0] s = Inr s1" "bucket_inv s1" "cache_inv s1" by blast
  from Cons.IH [OF s1(2,3)] obtain s' where
    s': "run geoip (one_at_a_time ls) s1 = Inr s'" "bucket_inv s'" "cache_inv s'" by blast
  have "one_at_a_time (l # ls) = [Line l, Settle 0] @ one_at_a_time ls"
    by (simp add: one_at_a_time_def)
  then have "run geoip (one_at_a_time (l # ls)) s = Inr s'"
    using s1(1) s'(1) by (simp only: run_append) simp
  with s'(2,3) show ?case by blast
qed

lemma one_at_a_time_lookups_distinct:
  assumes "\<forall>n i. resolved_country (geoip n i) \<noteq> None"
  shows "\<exists>s. run geoip (one_at_a_time ls) init_state = Inr s \<and> suspended s = []
           \<and> distinct (lookups s)"
proof -
  have "cache_inv init_state" by (simp add: cache_inv_def init_state_def)
  from one_at_a_time_inv [OF assms init_inv this, of ls]
  show ?thesis by (auto simp: cache_inv_def)
qed

text \<open>
  Claim C5 (cache-hit law), evaluated where it fails. The cache is written only when
  a lookup has settled. First run: two lines carry the address \<open>1.2.3.4\<close> and the second
  is delivered while the lookup of the first is pending; both listeners miss the cache
  and the capability is called twice for the one address. Second run: every listener
  finishes before the next line, and the capability resolves to an object that has no
  country; \<open>undefined\<close> is stored, the next lookup of the cache reads \<open>undefined\<close> again,
  and the capability is called a second time.
\<close>

theorem cache_repeated_lookup:
  "(case run (\<lambda>n i. Resolves (Some (geo_in ''US'')))
           [Line (log_entry ''1.2.3.4'' ''2025-01-01T00:00:00''),
            Line (log_entry ''1.2.3.4'' ''2025-01-01T00:00:00''), Settle 0, Settle 0] init_state of
      Inl e \<Rightarrow> False
    | Inr s \<Rightarrow> lookups s = [''1.2.3.4'', ''1.2.3.4''])
 \<and> (case run (\<lambda>n i. Resolves (Some \<lparr>country = None, region = None, city = None, timezone = None\<rparr>))
           (one_at_a_time [log_entry ''1.2.3.4'' ''2025-01-01T00:00:00'',
                           log_entry ''1.2.3.4'' ''2025-01-01T00:00:00'']) init_state of
      Inl e \<Rightarrow> False
    | Inr s \<Rightarrow> lookups s = [''1.2.3.4'', ''1.2.3.4''])"
  by code_simp

subsection \<open>The order of the lines\<close>

lemma one_at_a_time_no_overlap:
  "suspended s = [] \<Longrightarrow> \<not> overlaps geoip (one_at_a_time ls) s"
proof (induction ls arbitrary: s)
  case Nil
  show ?case by (simp add: one_at_a_time_def)
next
  case (Cons l ls)
  have unf: "one_at_a_time (l # ls) = Line l # Settle 0 # one_at_a_time ls"
    by (simp add: one_at_a_time_def)
  show ?case
  proof (cases "step geoip (Line l) s")
    case (Inl e)
    with Cons.prems show ?thesis by (simp add: unf)
  next
    case first: (Inr s1)
    then have lh: "line_handler geoip l s = Inr s1" by (simp add: step_def)
    note fr = line_handler_frame [OF lh]
    show ?thesis
    proof (cases "step geoip (Settle 0) s1")
      case (Inl e)
      with first Cons.prems show ?thesis by (simp add: unf)
    next
      case second: (Inr s2)
      have "suspended s2 = []"
      proof (cases "suspended s1")
        case Nil
        with second show ?thesis by (simp add: step_def)
      next
        case more: (Cons a rest)
        from fr Cons.prems more have "rest = []"
          by (auto split: option.splits)
        with second more have "line_handler_resume a (s1\<lparr>suspended := []\<rparr>) = Inr s2"
          by (simp add: step_def)
        from resume_frame [OF this] show ?thesis by simp
      qed
      then have "\<not> overlaps geoip (one_at_a_time ls) s2" by (rule Cons.IH)
      with first second Cons.prems show ?thesis by (simp add: unf)
    qed
  qed
qed

text \<open>
  Claim C9 (strict per-line ordering), evaluated where it fails. The listener is an
  \<open>async\<close> function registered with \<open>rl.on ('line', ...)\<close>; the stream does not wait for
  the promise a listener returns, and the script never pauses it. Two lines of one
  chunk are delivered one after the other, before any lookup settles: the second line
  is delivered while the listener of the first is suspended. After the two lines both
  listeners are suspended at once, the bucket of the minute counts two requests and no
  country yet, and the cache is still empty. A schedule in which every listener
  finishes before the next line never does this (lemma \<open>one_at_a_time_no_overlap\<close>),
  but nothing in the script selects such a schedule.
\<close>

theorem line_delivered_while_suspended:
  "overlaps (\<lambda>n i. Resolves (Some (geo_in ''US'')))
     [Line (log_entry ''1.2.3.4'' ''2025-01-01T00:00:00''),
      Line (log_entry ''5.6.7.8'' ''2025-01-01T00:00:00''), Settle 0, Settle 0] init_state
 \<and> (case run (\<lambda>n i. Resolves (Some (geo_in ''US'')))
           [Line (log_entry ''1.2.3.4'' ''2025-01-01T00:00:00''),
            Line (log_entry ''5.6.7.8'' ''2025-01-01T00:00:00'')] init_state of
      Inl e \<Rightarrow> False
    | Inr s \<Rightarrow> map aw_ip (suspended s) = [''1.2.3.4'', ''5.6.7.8'']
        \<and> map (\<lambda>kb. requests (snd kb)) (minuteData s) = [2]
        \<and> map (\<lambda>kb. countries (snd kb)) (minuteData s) = [[]]
        \<and> ipCache s = [])"
  by code_simp

subsection \<open>Failed lookups\<close>

text \<open>
  Claim C6 (failure absorption). When the lookup rejects or resolves to nothing, the
  remainder of the listener returns normally for any state that holds the bucket, with
  \<open>Unknown\<close> stored in the cache for the address and counted once in the bucket and once
  in the totals; it calls the capability no further, and neither does a later line of
  the same address. No run ends with an exception, whatever the capability answers and
  whatever the order of events. In the bot script the same outcomes count \<open>Unknown\<close>
  once, count one failed lookup, and the loop goes on.
\<close>

theorem lookup_failure_absorbed:
  assumes "outcome = Rejects \<or> outcome = Resolves None"
  shows "(\<forall>s key i b. map_of (minuteData s) key = Some b \<longrightarrow>
            (\<exists>s' b'. line_handler_resume \<lparr>aw_ip = i, aw_minuteKey = key, aw_outcome = outcome\<rparr> s = Inr s'
               \<and> cache_read (ipCache s') i = Some ''Unknown''
               \<and> lookups s' = lookups s
               \<and> count_of ''Unknown'' (countryTotals s') = count_of ''Unknown'' (countryTotals s) + 1
               \<and> map_of (minuteData s') key = Some b'
               \<and> count_of ''Unknown'' (countries b') = count_of ''Unknown'' (countries b) + 1
               \<and> (\<forall>l. ip l = i \<longrightarrow>
                     (\<exists>s''. line_handler geoip (Some l) s' = Inr s'' \<and> lookups s'' = lookups s'))))
       \<and> (\<exists>s. run geoip events init_state = Inr s)
       \<and> (\<forall>t p. lookup_ip outcome (t, p) =
             (t\<lparr>countryCounts := incr ''Unknown'' (countryCounts t)\<rparr>,
              p\<lparr>processedIPs := processedIPs p + 1, failedLookups := failedLookups p + 1\<rparr>))"
proof (intro conjI allI impI)
  fix s :: run_state and key i :: string and b :: minute_bucket
  assume b: "map_of (minuteData s) key = Some b"
  define s1 where "s1 = s\<lparr>ipCache := AList.update i (Some ''Unknown'') (ipCache s)\<rparr>"
  define b' where "b' = b\<lparr>countries := incr ''Unknown'' (countries b)\<rparr>"
  define s' where "s' = s1\<lparr>minuteData := AList.update key b' (minuteData s1),
            countryTotals := incr ''Unknown'' (countryTotals s1)\<rparr>"
  have c: "resolved_country outcome = Some ''Unknown''"
    using assms by (auto simp: resolved_country_def)
  have b1: "map_of (minuteData s1) key = Some b" using b by (simp add: s1_def)
  have r: "line_handler_resume \<lparr>aw_ip = i, aw_minuteKey = key, aw_outcome = outcome\<rparr> s = Inr s'"
    using count_country_eq [OF b1, of "Some ''Unknown''"]
    by (simp add: line_handler_resume_def c s1_def [symmetric] s'_def b'_def property_key_def)
  have cache: "cache_read (ipCache s') i = Some ''Unknown''"
    by (simp add: s'_def s1_def cache_read_def update_conv')
  have retry: "\<forall>l. ip l = i \<longrightarrow>
                     (\<exists>s''. line_handler geoip (Some l) s' = Inr s'' \<and> lookups s'' = lookups s')"
    using cache cache_hit_no_lookup [of s' _ "''Unknown''" geoip] by auto
  have "lookups s' = lookups s"
    and "count_of ''Unknown'' (countryTotals s') = count_of ''Unknown'' (countryTotals s) + 1"
    and "map_of (minuteData s') key = Some b'"
    and "count_of ''Unknown'' (countries b') = count_of ''Unknown'' (countries b) + 1"
    by (simp_all add: s'_def s1_def b'_def count_of_incr update_conv')
  with r cache retry
  show "\<exists>s' b'. line_handler_resume \<lparr>aw_ip = i, aw_minuteKey = key, aw_outcome = outcome\<rparr> s = Inr s'
               \<and> cache_read (ipCache s') i = Some ''Unknown''
               \<and> lookups s' = lookups s
               \<and> count_of ''Unknown'' (countryTotals s') = count_of ''Unknown'' (countryTotals s) + 1
               \<and> map_of (minuteData s') key = Some b'
               \<and> count_of ''Unknown'' (countries b') = count_of ''Unknown'' (countries b) + 1
               \<and> (\<forall>l. ip l = i \<longrightarrow>
                     (\<exists>s''. line_handler geoip (Some l) s' = Inr s'' \<and> lookups s'' = lookups s'))"
    by blast
next
  from run_total [of geoip events] show "\<exists>s. run geoip events init_state = Inr s" by blast
next
  fix t :: tallies and p :: progress
  from assms show "lookup_ip outcome (t, p) =
             (t\<lparr>countryCounts := incr ''Unknown'' (countryCounts t)\<rparr>,
              p\<lparr>processedIPs := processedIPs p + 1, failedLookups := failedLookups p + 1\<rparr>)"
    by (auto simp: lookup_ip_def)
qed

theorem lookup_failure_absorbed_witness:
  "(\<exists>s'. line_handler_resume \<lparr>aw_ip = ''10.0.0.9'', aw_minuteKey = ''2025-01-01T00:00:00'',
                                aw_outcome = Rejects\<rparr>
            (init_state\<lparr>minuteData := [(''2025-01-01T00:00:00'', empty_bucket\<lparr>requests := 1\<rparr>)]\<rparr>) = Inr s'
         \<and> cache_read (ipCache s') ''10.0.0.9'' = Some ''Unknown''
         \<and> count_of ''Unknown'' (countryTotals s') = 1)
 \<and> lookup_ip Rejects (empty_tallies, \<lparr>processedIPs = 0, failedLookups = 0\<rparr>)
      = (empty_tallies\<lparr>countryCounts := [(''Unknown'', 1)]\<rparr>, \<lparr>processedIPs = 1, failedLookups = 1\<rparr>)"
proof -
  have m: "map_of (minuteData (init_state\<lparr>minuteData := [(''2025-01-01T00:00:00'', empty_bucket\<lparr>requests := 1\<rparr>)]\<rparr>))
        ''2025-01-01T00:00:00'' = Some (empty_bucket\<lparr>requests := 1\<rparr>)"
    by simp
  have z: "count_of ''Unknown'' (countryTotals (init_state\<lparr>minuteData := [(''2025-01-01T00:00:00'', empty_bucket\<lparr>requests := 1\<rparr>)]\<rparr>)) = 0"
    by (simp add: init_state_def count_of_def)
  have R: "Rejects = Rejects \<or> Rejects = Resolves None" by simp
  note T = lookup_failure_absorbed [OF R, of example_lookup "[]"]
  from T [THEN conjunct1, rule_format, OF m, of "''10.0.0.9''"] obtain s' where
    s': "line_handler_resume \<lparr>aw_ip = ''10.0.0.9'', aw_minuteKey = ''2025-01-01T00:00:00'',
                                aw_outcome = Rejects\<rparr>
            (init_state\<lparr>minuteData := [(''2025-01-01T00:00:00'', empty_bucket\<lparr>requests := 1\<rparr>)]\<rparr>) = Inr s'"
    and c: "cache_read (ipCache s') ''10.0.0.9'' = Some ''Unknown''"
    and n: "count_of ''Unknown'' (countryTotals s') =
        count_of ''Unknown'' (countryTotals (init_state\<lparr>minuteData := [(''2025-01-01T00:00:00'', empty_bucket\<lparr>requests := 1\<rparr>)]\<rparr>)) + 1"
    by blast
  from n z have n1: "count_of ''Unknown'' (countryTotals s') = 1" by simp
  from T [THEN conjunct2, THEN conjunct2, rule_format, of empty_tallies "\<lparr>processedIPs = 0, failedLookups = 0\<rparr>"]
  have B: "lookup_ip Rejects (empty_tallies, \<lparr>processedIPs = 0, failedLookups = 0\<rparr>)
      = (empty_tallies\<lparr>countryCounts := [(''Unknown'', 1)]\<rparr>, \<lparr>processedIPs = 1, failedLookups = 1\<rparr>)"
    by (simp add: empty_tallies_def incr_def count_of_def)
  from s' c n1 B show ?thesis by blast
qed

subsection \<open>The peak minute\<close>

lemma peak_loop_spec:
  assumes "\<forall>m\<in>set ms. map_of md m \<noteq> None"
  shows "\<exists>pm' pr'. peak_loop md ms (pm, pr) = Inr (pm', pr')
           \<and> (\<forall>m\<in>set ms. req md m \<le> pr')
           \<and> ((pm' = pm \<and> pr' = pr)
              \<or> (\<exists>pre post. ms = pre @ pm' # post \<and> req md pm' = pr' \<and> pr < pr'
                    \<and> (\<forall>m\<in>set pre. req md m < pr')))"
  using assms
proof (induction ms arbitrary: pm pr)
  case Nil
  then show ?case by simp
next
  case (Cons m ms)
  from Cons.prems obtain b where b: "map_of md m = Some b" by auto
  then have rm: "req md m = requests b" by (simp add: req_def)
  from Cons.prems have rest: "\<forall>m\<in>set ms. map_of md m \<noteq> None" by simp
  show ?case
  proof (cases "requests b > pr")
    case True
    from Cons.IH [OF rest, of m "requests b"] obtain pm' pr' where
      r: "peak_loop md ms (m, requests b) = Inr (pm', pr')"
      and le: "\<forall>x\<in>set ms. req md x \<le> pr'"
      and alt: "(pm' = m \<and> pr' = requests b)
              \<or> (\<exists>pre post. ms = pre @ pm' # post \<and> req md pm' = pr' \<and> requests b < pr'
                    \<and> (\<forall>x\<in>set pre. req md x < pr'))"
      by blast
    have eq: "peak_loop md (m # ms) (pm, pr) = Inr (pm', pr')"
      using b True r by simp
    from alt show ?thesis
    proof
      assume same: "pm' = m \<and> pr' = requests b"
      then have "m # ms = [] @ pm' # ms \<and> req md pm' = pr' \<and> pr < pr' \<and> (\<forall>x\<in>set []. req md x < pr')"
        using True rm by simp
      then have "\<exists>pre post. m # ms = pre @ pm' # post \<and> req md pm' = pr' \<and> pr < pr'
                    \<and> (\<forall>x\<in>set pre. req md x < pr')" by blast
      moreover have "\<forall>x\<in>set (m # ms). req md x \<le> pr'" using le same rm by simp
      ultimately show ?thesis using eq by blast
    next
      assume "\<exists>pre post. ms = pre @ pm' # post \<and> req md pm' = pr' \<and> requests b < pr'
                    \<and> (\<forall>x\<in>set pre. req md x < pr')"
      then obtain pre post where p: "ms = pre @ pm' # post" "req md pm' = pr'" "requests b < pr'"
          "\<forall>x\<in>set pre. req md x < pr'" by blast
      then have "m # ms = (m # pre) @ pm' # post \<and> req md pm' = pr' \<and> pr < pr'
                    \<and> (\<forall>x\<in>set (m # pre). req md x < pr')"
        using True rm by simp
      then have "\<exists>pre post. m # ms = pre @ pm' # post \<and> req md pm' = pr' \<and> pr < pr'
                    \<and> (\<forall>x\<in>set pre. req md x < pr')" by blast
      moreover have "\<forall>x\<in>set (m # ms). req md x \<le> pr'" using le p(3) rm by simp
      ultimately show ?thesis using eq by blast
    qed
  next
    case False
    from Cons.IH [OF rest, of pm pr] obtain pm' pr' where
      r: "peak_loop md ms (pm, pr) = Inr (pm', pr')"
      and le: "\<forall>x\<in>set ms. req md x \<le> pr'"
      and alt: "(pm' = pm \<and> pr' = pr)
              \<or> (\<exists>pre post. ms = pre @ pm' # post \<and> req md pm' = pr' \<and> pr < pr'
                    \<and> (\<forall>x\<in>set pre. req md x < pr'))"
      by blast
    have eq: "peak_loop md (m # ms) (pm, pr) = Inr (pm', pr')"
      using b False r by simp
    from alt show ?thesis
    proof
      assume same: "pm' = pm \<and> pr' = pr"
      moreover have "\<forall>x\<in>set (m # ms). req md x \<le> pr'" using le same rm False by simp
      ultimately show ?thesis using eq by blast
    next
      assume "\<exists>pre post. ms = pre @ pm' # post \<and> req md pm' = pr' \<and> pr < pr'
                    \<and> (\<forall>x\<in>set pre. req md x < pr')"
      then obtain pre post where p: "ms = pre @ pm' # post" "req md pm' = pr'" "pr < pr'"
          "\<forall>x\<in>set pre. req md x < pr'" by blast
      then have "m # ms = (m # pre) @ pm' # post \<and> req md pm' = pr' \<and> pr < pr'
                    \<and> (\<forall>x\<in>set (m # pre). req md x < pr')"
        using False rm by simp
      then have "\<exists>pre post. m # ms = pre @ pm' # post \<and> req md pm' = pr' \<and> pr < pr'
                    \<and> (\<forall>x\<in>set pre. req md x < pr')" by blast
      moreover have "\<forall>x\<in>set (m # ms). req md x \<le> pr'" using le p(3) rm False by simp
      ultimately show ?thesis using eq by blast
    qed
  qed
qed

text \<open>
  Claim C7 (peak-minute tie-break). For a non-empty set of buckets with one bucket per
  key, scanned in ascending key order, the peak minute names a bucket whose request
  count is the maximum, and no bucket with that count has a smaller key. For the counts
  \<open>T0: 5\<close>, \<open>T1: 9\<close>, \<open>T2: 9\<close> the peak is \<open>T1\<close>.
\<close>

theorem peak_minute_first_maximum:
  assumes "distinct (map fst md)" and "md \<noteq> []"
  shows "\<exists>pm pr b. find_peak md = Inr (pm, pr) \<and> (pm, b) \<in> set md \<and> requests b = pr
          \<and> (\<forall>(k, b')\<in>set md. requests b' \<le> pr \<and> (requests b' = pr \<longrightarrow> pm \<le> k))"
proof -
  define ms where "ms = sortedMinutes md"
  have set_ms: "set ms = fst ` set md" by (simp add: ms_def sortedMinutes_def)
  have sorted_ms: "sorted ms" by (simp add: ms_def sortedMinutes_def)
  from assms(2) set_ms have "ms \<noteq> []" by (cases md) auto
  then obtain first rest where fr: "ms = first # rest" by (cases ms) auto
  have dom: "\<forall>m\<in>set ms. map_of md m \<noteq> None"
    using set_ms by (auto simp: map_of_eq_None_iff)
  have mo: "map_of md k = Some b \<longleftrightarrow> (k, b) \<in> set md" for k b
    using assms(1) by simp
  have rq: "req md k = requests b" if "(k, b) \<in> set md" for k b
    using that mo [of k b] by (simp add: req_def)
  have fp: "find_peak md = peak_loop md ms (first, 0)"
    using fr by (simp add: find_peak_def ms_def [symmetric])
  from peak_loop_spec [OF dom, of first 0] obtain pm pr where
    r: "peak_loop md ms (first, 0) = Inr (pm, pr)"
    and le: "\<forall>m\<in>set ms. req md m \<le> pr"
    and alt: "(pm = first \<and> pr = 0)
              \<or> (\<exists>pre post. ms = pre @ pm # post \<and> req md pm = pr \<and> 0 < pr
                    \<and> (\<forall>m\<in>set pre. req md m < pr))"
    by blast
  have le': "requests b' \<le> pr" if "(k, b') \<in> set md" for k b'
  proof -
    from that have "k \<in> set ms" using set_ms by force
    with le rq [OF that] show ?thesis by auto
  qed
  from alt show ?thesis
  proof
    assume same: "pm = first \<and> pr = 0"
    from fr have "first \<in> set ms" by simp
    then have "first \<in> fst ` set md" by (simp only: set_ms)
    then obtain b where b: "(first, b) \<in> set md" by auto
    from le' [OF b] same have rb: "requests b = pr" by simp
    have "pm \<le> k" if "(k, b') \<in> set md" for k b'
    proof -
      from that have "k \<in> set ms" using set_ms by force
      with sorted_ms fr same show ?thesis by auto
    qed
    then have "\<forall>(k, b')\<in>set md. requests b' \<le> pr \<and> (requests b' = pr \<longrightarrow> pm \<le> k)"
      using le' by (intro ballI) (simp add: case_prod_beta, metis prod.collapse)
    with fp r b rb same show ?thesis by (intro exI [of _ pm] exI [of _ pr] exI [of _ b]) simp
  next
    assume "\<exists>pre post. ms = pre @ pm # post \<and> req md pm = pr \<and> 0 < pr
                    \<and> (\<forall>m\<in>set pre. req md m < pr)"
    then obtain pre post where p: "ms = pre @ pm # post" "req md pm = pr"
        "\<forall>m\<in>set pre. req md m < pr" by blast
    from p(1) have "pm \<in> set ms" by simp
    then have "pm \<in> fst ` set md" by (simp only: set_ms)
    then obtain b where b: "(pm, b) \<in> set md" by auto
    from rq [OF b] p(2) have rb: "requests b = pr" by simp
    have tie: "pm \<le> k" if "(k, b') \<in> set md" and "requests b' = pr" for k b'
    proof -
      from that(1) have kin: "k \<in> set ms" using set_ms by force
      from rq [OF that(1)] that(2) have "req md k = pr" by simp
      with p(3) have "k \<notin> set pre" by auto
      with kin p(1) have "k = pm \<or> k \<in> set post" by auto
      moreover from sorted_ms p(1) have "\<forall>x\<in>set post. pm \<le> x"
        by (simp add: sorted_append)
      ultimately show ?thesis by auto
    qed
    have "\<forall>(k, b')\<in>set md. requests b' \<le> pr \<and> (requests b' = pr \<longrightarrow> pm \<le> k)"
      using le' tie by (intro ballI) (simp add: case_prod_beta, metis prod.collapse)
    with fp r b rb show ?thesis by (intro exI [of _ pm] exI [of _ pr] exI [of _ b]) simp
  qed
qed

theorem peak_minute_first_maximum_witness:
  "distinct (map fst [(''T2'', empty_bucket\<lparr>requests := 9\<rparr>), (''T0'', empty_bucket\<lparr>requests := 5\<rparr>),
                      (''T1'', empty_bucket\<lparr>requests := 9\<rparr>)])
 \<and> find_peak [(''T2'', empty_bucket\<lparr>requests := 9\<rparr>), (''T0'', empty_bucket\<lparr>requests := 5\<rparr>),
              (''T1'', empty_bucket\<lparr>requests := 9\<rparr>)] = Inr (''T1'', 9)"
proof -
  have fp: "find_peak [(''T2'', empty_bucket\<lparr>requests := 9\<rparr>), (''T0'', empty_bucket\<lparr>requests := 5\<rparr>),
              (''T1'', empty_bucket\<lparr>requests := 9\<rparr>)] = Inr (''T1'', 9)"
    by code_simp
  show ?thesis
    using peak_minute_first_maximum [of "[(''T2'', empty_bucket\<lparr>requests := 9\<rparr>),
        (''T0'', empty_bucket\<lparr>requests := 5\<rparr>), (''T1'', empty_bucket\<lparr>requests := 9\<rparr>)]"] fp
    by simp
qed


subsection \<open>The country table of a bot\<close>

lemma sum_sort_key:
  fixes f :: "'a \<Rightarrow> nat"
  shows "sum_list (map f (sort_key k xs)) = sum_list (map f xs)"
proof (induction xs)
  case Nil
  then show ?case by simp
next
  case (Cons x xs)
  have ins: "sum_list (map f (insort_key k y ys)) = f y + sum_list (map f ys)" for y ys
    by (induction ys) simp_all
  from Cons show ?case by (simp add: ins)
qed

lemma count_geo_sum:
  "sum_list (map snd (countryCounts (count_geo g t))) = Suc (sum_list (map snd (countryCounts t)))"
  by (simp add: count_geo_def Let_def sum_incr)

lemma lookup_ip_sum:
  "sum_list (map snd (countryCounts (fst (lookup_ip outcome (t, p)))))
     = Suc (sum_list (map snd (countryCounts t)))"
proof (cases outcome)
  case Rejects
  then show ?thesis by (simp add: lookup_ip_def sum_incr)
next
  case (Resolves r)
  then show ?thesis
    by (cases r) (simp_all add: lookup_ip_def sum_incr count_geo_sum)
qed

lemma lookup_ips_sum:
  "sum_list (map snd (countryCounts (fst (lookup_ips geoip is tp))))
     = sum_list (map snd (countryCounts (fst tp))) + length is"
proof (induction "is" arbitrary: tp)
  case Nil
  then show ?case by simp
next
  case (Cons i rest)
  obtain t p where tp: "tp = (t, p)" by (cases tp)
  from Cons [of "lookup_ip (geoip (processedIPs (snd tp)) i) tp"]
  show ?case by (simp add: tp lookup_ip_sum)
qed

lemma enrich_bot_enriched: "bot_enriched b (fst (enrich_bot geoip names b p))"
proof -
  obtain t p' where l: "lookup_ips geoip (ips b) (empty_tallies, p) = (t, p')"
    by (cases "lookup_ips geoip (ips b) (empty_tallies, p)")
  define pcts where "pcts = map (\<lambda>(countryCode, n).
                   (countryCode,
                    \<lparr>ci_code = countryCode, ci_name = getCountryName names countryCode,
                     ci_count = n, ci_percentage = percentage n (length (ips b))\<rparr>))
              (countryCounts t)"
  have sum_t: "sum_list (map snd (countryCounts t)) = length (ips b)"
    using lookup_ips_sum [of geoip "ips b" "(empty_tallies, p)"] l
    by (simp add: empty_tallies_def)
  have "map (\<lambda>e. ci_count (snd e)) pcts = map snd (countryCounts t)"
    by (simp add: pcts_def case_prod_beta)
  with sum_t have sum_p: "sum_list (map (\<lambda>e. ci_count (snd e)) pcts) = length (ips b)" by simp
  have pct: "\<forall>e\<in>set pcts. ci_percentage (snd e) = percentage (ci_count (snd e)) (length (ips b))"
    by (auto simp: pcts_def)
  have e: "fst (enrich_bot geoip names b p) =
      b\<lparr>geo := Some \<lparr>geo_countries = by_count_desc ci_count pcts,
                      top_cities = take 10 (by_count_desc id (cityCounts t)),
                      timezones = timezoneCounts t\<rparr>\<rparr>"
    by (simp add: enrich_bot_def l Let_def pcts_def)
  show ?thesis
    unfolding bot_enriched_def e
    using sum_p pct by (simp add: by_count_desc_def sum_sort_key)
qed

text \<open>
  Claim C10 (per-bot country sum). The enrichment keeps the bots and their order; every
  bot keeps its addresses and receives a country table whose counts add up to the number
  of its addresses, and every percentage of the table is taken of its own count over that
  same number.
\<close>

theorem bot_country_sum:
  assumes "enrich_all geoip names bots p = (bots', p')"
  shows "map fst bots' = map fst bots \<and> list_all2 bot_enriched (map snd bots) (map snd bots')"
  using assms
proof (induction bots arbitrary: p bots' p')
  case Nil
  then show ?case by simp
next
  case (Cons nb rest)
  obtain n b where nb: "nb = (n, b)" by (cases nb)
  obtain b1 p1 where e1: "enrich_bot geoip names b p = (b1, p1)"
    by (cases "enrich_bot geoip names b p")
  obtain rest1 p2 where e2: "enrich_all geoip names rest p1 = (rest1, p2)"
    by (cases "enrich_all geoip names rest p1")
  from Cons.prems have res: "bots' = (n, b1) # rest1"
    by (simp add: nb e1 e2)
  from enrich_bot_enriched [of b geoip names p] e1 have "bot_enriched b b1" by simp
  with Cons.IH [OF e2] res nb show ?case by simp
qed

theorem bot_country_sum_witness:
  "enrich_all example_lookup Map.empty
     [(''examplebot'', \<lparr>bot_count = 7, ips = [''10.0.0.1'', ''10.0.0.9'', ''10.0.0.2''],
                        user_agents = [], info_urls = [], geo = None\<rparr>)]
     \<lparr>processedIPs = 0, failedLookups = 0\<rparr>
   = ([(''examplebot'', \<lparr>bot_count = 7, ips = [''10.0.0.1'', ''10.0.0.9'', ''10.0.0.2''],
          user_agents = [], info_urls = [],
          geo = Some \<lparr>geo_countries =
                   [(''US'', \<lparr>ci_code = ''US'', ci_name = ''US'', ci_count = 1, ci_percentage = percentage 1 3\<rparr>),
                    (''Unknown'', \<lparr>ci_code = ''Unknown'', ci_name = ''Unknown'', ci_count = 1, ci_percentage = percentage 1 3\<rparr>),
                    (''BR'', \<lparr>ci_code = ''BR'', ci_name = ''BR'', ci_count = 1, ci_percentage = percentage 1 3\<rparr>)],
                 top_cities = [], timezones = []\<rparr>\<rparr>)],
      \<lparr>processedIPs = 3, failedLookups = 1\<rparr>)
 \<and> list_all2 bot_enriched
      [\<lparr>bot_count = 7, ips = [''10.0.0.1'', ''10.0.0.9'', ''10.0.0.2''],
        user_agents = [], info_urls = [], geo = None\<rparr>]
      [\<lparr>bot_count = 7, ips = [''10.0.0.1'', ''10.0.0.9'', ''10.0.0.2''],
          user_agents = [], info_urls = [],
          geo = Some \<lparr>geo_countries =
                   [(''US'', \<lparr>ci_code = ''US'', ci_name = ''US'', ci_count = 1, ci_percentage = percentage 1 3\<rparr>),
                    (''Unknown'', \<lparr>ci_code = ''Unknown'', ci_name = ''Unknown'', ci_count = 1, ci_percentage = percentage 1 3\<rparr>),
                    (''BR'', \<lparr>ci_code = ''BR'', ci_name = ''BR'', ci_count = 1, ci_percentage = percentage 1 3\<rparr>)],
                 top_cities = [], timezones = []\<rparr>\<rparr>]"
proof -
  have e: "enrich_all example_lookup Map.empty
     [(''examplebot'', \<lparr>bot_count = 7, ips = [''10.0.0.1'', ''10.0.0.9'', ''10.0.0.2''],
                        user_agents = [], info_urls = [], geo = None\<rparr>)]
     \<lparr>processedIPs = 0, failedLookups = 0\<rparr>
   = ([(''examplebot'', \<lparr>bot_count = 7, ips = [''10.0.0.1'', ''10.0.0.9'', ''10.0.0.2''],
          user_agents = [], info_urls = [],
          geo = Some \<lparr>geo_countries =
                   [(''US'', \<lparr>ci_code = ''US'', ci_name = ''US'', ci_count = 1, ci_percentage = percentage 1 3\<rparr>),
                    (''Unknown'', \<lparr>ci_code = ''Unknown'', ci_name = ''Unknown'', ci_count = 1, ci_percentage = percentage 1 3\<rparr>),
                    (''BR'', \<lparr>ci_code = ''BR'', ci_name = ''BR'', ci_count = 1, ci_percentage = percentage 1 3\<rparr>)],
                 top_cities = [], timezones = []\<rparr>\<rparr>)],
      \<lparr>processedIPs = 3, failedLookups = 1\<rparr>)"
    by code_simp
  from bot_country_sum [OF e] e show ?thesis by simp
qed


subsection \<open>Percentages\<close>

lemma percentage_value:
  assumes "js_round (js_mul (js_div_count (Num (of_nat c)) t) (Num 10000)) = Num (of_int N)"
  shows "percentage c t = fl64 (of_int N / 100)"
  using assms by (simp add: percentage_def)

text \<open>
  Claim C8 (percentage rounding), as stated, fails on the code: the quotient and the
  product are rounded to double precision before \<open>Math.round\<close> sees them. For a count
  of 57 and a total of 800 the formula gives \<open>round (712.5) / 100 = 7.13\<close>; the code
  computes \<open>57 / 800 * 10000\<close> as a double just below 712.5 and exposes 7.12. For
  counts of several hundred billions the rounding errors reach values that are not
  halfway: 426201136232 of 455318771681 is exposed as 93.61 where the formula gives
  93.60.
\<close>

theorem percentage_rounding_counterexample:
  "percentage 57 800 = fl64 (712 / 100)
 \<and> spec_percentage 57 800 = 713 / 100
 \<and> fl64 (712 / 100) \<noteq> fl64 (713 / 100)
 \<and> percentage 426201136232 455318771681 = fl64 (9361 / 100)
 \<and> spec_percentage 426201136232 455318771681 = 9360 / 100
 \<and> fl64 (9361 / 100) \<noteq> fl64 (9360 / 100)"
proof -
  have a: "js_round (js_mul (fl64 (57 / 800)) (Num 10000)) = Num 712" by code_simp
  have A: "percentage 57 800 = fl64 (712 / 100)"
    by (simp add: percentage_def a)
  have b: "spec_round (57 / 800 * 10000) = 713" by code_simp
  have B: "spec_percentage 57 800 = 713 / 100"
    unfolding spec_percentage_def by (simp only: of_nat_numeral b of_int_numeral)
  have C: "fl64 (712 / 100) \<noteq> fl64 (713 / 100)" by code_simp
  have d: "js_round (js_mul (fl64 (426201136232 / 455318771681)) (Num 10000)) = Num 9361"
    by code_simp
  have D: "percentage 426201136232 455318771681 = fl64 (9361 / 100)"
    by (simp add: percentage_def d)
  have e: "spec_round (426201136232 / 455318771681 * 10000) = 9360" by code_simp
  have E: "spec_percentage 426201136232 455318771681 = 9360 / 100"
    unfolding spec_percentage_def by (simp only: of_nat_numeral e of_int_numeral)
  have F: "fl64 (9361 / 100) \<noteq> fl64 (9360 / 100)" by code_simp
  from A B C D E F show ?thesis by blast
qed

text \<open>
  Claim C8, amended. For a positive total below \<open>2 ^ 52\<close> and a count of at most
  \<open>10 ^ 11\<close>, the exposed percentage is the double nearest to \<open>N / 100\<close>, where \<open>N\<close>
  is \<open>round (c / t * 10000)\<close>,
  except that when \<open>c / t * 10000\<close> lies exactly halfway between two integers \<open>N\<close> may be
  the lower of the two (57 of 800 gives 7.12, while 1 of 32 gives 3.13). Every entry of
  a country table is computed by this function from its own count alone, in the traffic
  script and in the bot script, and nothing adjusts the entries afterwards: counts
  \<open>{A: 1, B: 1, C: 1}\<close> with the total 3 give 33.33 three times, which add up to 99.99.
\<close>

theorem percentage_rounding:
  assumes "0 < t" and "t < 2 ^ 52" and "c \<le> 100000000000"
  shows "(\<exists>N. percentage c t = fl64 (of_int N / 100)
            \<and> (N = spec_round (of_nat c / of_nat t * 10000)
               \<or> (N = spec_round (of_nat c / of_nat t * 10000) - 1
                  \<and> (of_nat c :: rat) / of_nat t * 10000 = of_int N + 1 / 2)))
       \<and> map (\<lambda>e. ci_percentage (snd e)) (countryTotalsWithNames names totals t)
           = map (\<lambda>e. percentage (snd e) t) totals
       \<and> map (\<lambda>e. ci_percentage (snd e)) (sortedCountryTotals names s)
           = map (\<lambda>e. percentage (ci_count (snd e)) (totalRequests (minuteData s)))
               (sortedCountryTotals names s)
       \<and> map (\<lambda>e. ci_percentage (snd e))
             (countryTotalsWithNames names [(''A'', 1), (''B'', 1), (''C'', 1)] 3)
           = [fl64 (3333 / 100), fl64 (3333 / 100), fl64 (3333 / 100)]
       \<and> js_add (js_add (fl64 (3333 / 100)) (fl64 (3333 / 100))) (fl64 (3333 / 100))
           = fl64 (9999 / 100)
       \<and> fl64 (9999 / 100) \<noteq> Num 100
       \<and> percentage 1 32 = fl64 (313 / 100)"
proof -
  define R where "R = math_round (of_int (10000 * int c) / of_nat t)"
  have q: "(of_int (10000 * int c) :: rat) / of_nat t = of_nat c / of_nat t * 10000" by simp
  have R: "R = spec_round (of_nat c / of_nat t * 10000)"
    by (simp only: R_def q) (simp add: spec_round_def math_round_def)
  from percentage_rounding_core [OF assms] obtain N where
    N: "js_round (js_mul (js_div_count (Num (of_nat c)) t) (Num 10000)) = Num (of_int N)"
    and alt: "N = R \<or> (2 * (10000 * int c) = (2 * R - 1) * int t \<and> N = R - 1)"
    unfolding R_def by blast
  have T0: "(0::rat) < of_nat t" using assms(1) by simp
  have half: "(of_nat c :: rat) / of_nat t * 10000 = of_int N + 1 / 2"
    if h: "2 * (10000 * int c) = (2 * R - 1) * int t" and n: "N = R - 1"
  proof -
    from h have "(of_int (2 * (10000 * int c)) :: rat) = of_int ((2 * R - 1) * int t)" by simp
    then have "2 * (10000 * (of_nat c :: rat)) = (2 * of_int R - 1) * of_nat t" by simp
    then have "(of_nat c :: rat) * 10000 = (of_int R - 1 / 2) * of_nat t"
      by (simp add: algebra_simps)
    then have "(of_nat c :: rat) * 10000 / of_nat t = of_int R - 1 / 2"
      using T0 by (simp add: field_simps)
    then show ?thesis by (simp add: n)
  qed
  have A: "\<exists>N. percentage c t = fl64 (of_int N / 100)
            \<and> (N = spec_round (of_nat c / of_nat t * 10000)
               \<or> (N = spec_round (of_nat c / of_nat t * 10000) - 1
                  \<and> (of_nat c :: rat) / of_nat t * 10000 = of_int N + 1 / 2))"
    using percentage_value [OF N] alt half R by blast
  have B: "map (\<lambda>e. ci_percentage (snd e)) (countryTotalsWithNames names totals t)
           = map (\<lambda>e. percentage (snd e) t) totals"
    by (simp add: countryTotalsWithNames_def case_prod_beta)
  have B': "map (\<lambda>e. ci_percentage (snd e)) (sortedCountryTotals names s)
           = map (\<lambda>e. percentage (ci_count (snd e)) (totalRequests (minuteData s)))
               (sortedCountryTotals names s)"
    by (auto simp: sortedCountryTotals_def by_count_desc_def countryTotalsWithNames_def)
  have "percentage 1 3 = fl64 (3333 / 100)" by code_simp
  then have p13: "percentage (Suc 0) 3 = fl64 (3333 / 100)" by simp
  have C: "map (\<lambda>e. ci_percentage (snd e))
             (countryTotalsWithNames names [(''A'', 1), (''B'', 1), (''C'', 1)] 3)
           = [fl64 (3333 / 100), fl64 (3333 / 100), fl64 (3333 / 100)]"
    by (simp add: countryTotalsWithNames_def p13)
  have D: "js_add (js_add (fl64 (3333 / 100)) (fl64 (3333 / 100))) (fl64 (3333 / 100))
           = fl64 (9999 / 100)"
    by code_simp
  have E: "fl64 (9999 / 100) \<noteq> Num 100" by code_simp
  have F: "percentage 1 32 = fl64 (313 / 100)" by code_simp
  from A B B' C D E F show ?thesis by blast
qed

theorem percentage_rounding_witness:
  "(0::nat) < 3 \<and> (3::nat) < 2 ^ 52 \<and> (1::nat) \<le> 100000000000
 \<and> percentage 1 3 = fl64 (3333 / 100)
 \<and> spec_round (of_nat 1 / of_nat 3 * 10000) = 3333"
proof -
  have r: "spec_round (of_nat 1 / of_nat 3 * 10000) = 3333" by code_simp
  have nh: "(of_nat 1 :: rat) / of_nat 3 * 10000 \<noteq> of_int 3332 + 1 / 2" by simp
  from percentage_rounding [of 3 1 Map.empty "[]" init_state] obtain N where
    N: "percentage 1 3 = fl64 (of_int N / 100)"
    and alt: "N = spec_round (of_nat 1 / of_nat 3 * 10000)
               \<or> (N = spec_round (of_nat 1 / of_nat 3 * 10000) - 1
                  \<and> (of_nat 1 :: rat) / of_nat 3 * 10000 = of_int N + 1 / 2)"
    by auto
  from alt r nh have "N = 3333" by auto
  with N r show ?thesis by simp
qed

end
